theory Spec2Isabelle
  imports Main "HOL-Library.Word" "HOL-Library.Signed_Division" "HOL-Library.Multiset"
begin

section \<open>The RISC-V code generator of the ToyC compiler (src/codegen/riscv.cpp)\<close>

subsection \<open>Abstract syntax\<close>

text \<open>
  The AST classes are declared outside \<^verbatim>\<open>riscv.cpp\<close>; the generator reads the fields
  used below.  A C++ \<^verbatim>\<open>int\<close> is a 32-bit two's complement value: \<open>cint\<close>, read
  with \<^const>\<open>sint\<close>.
\<close>

type_synonym cint = "32 word"

datatype binop = ADD | SUB | MUL | DIV | MOD | LT | LE | GT | GE | EQ | NE | AND | OR

datatype unop = PLUS | MINUS | NOT

datatype expr =
    NumberLiteral cint
  | Identifier string
  | UnaryExpression unop expr
  | BinaryExpression binop expr expr
  | FunctionCall string "expr list"

text \<open>
  Optional children (\<^verbatim>\<open>initializer\<close>, \<^verbatim>\<open>elseStatement\<close>, the value of a
  \<^verbatim>\<open>return\<close>) are pointers the code tests before use: an \<open>option\<close>.
\<close>

datatype stmt =
    VariableDeclaration string "expr option"
  | AssignmentStatement string expr
  | Block "stmt list"
  | IfStatement expr stmt "stmt option"
  | WhileStatement expr stmt
  | BreakStatement
  | ContinueStatement
  | ReturnStatement "expr option"
  | ExpressionStatement expr

datatype funcdef = FunctionDefinition string stmt

type_synonym compilation_unit = "funcdef list"

subsection \<open>Faults\<close>

text \<open>
  Two things in this file can kill the generator instead of returning: dereferencing a
  null pointer, and the \<^verbatim>\<open>int\<close> division of the constant fold where the hardware
  traps (the least \<^verbatim>\<open>int\<close> divided by \<open>- 1\<close>; a zero divisor would trap too).  A
  function that can be killed returns \<open>Inl\<close> the fault or \<open>Inr\<close> its result;
  \<open>and_then\<close> runs the rest of a function body after a call that returned.
\<close>

datatype fault = NullDereference | ArithmeticTrap

definition and_then :: "fault + 'a \<Rightarrow> ('a \<Rightarrow> fault + 'b) \<Rightarrow> fault + 'b" where
  "and_then r f = (case r of Inl e \<Rightarrow> Inl e | Inr x \<Rightarrow> f x)"

text \<open>\<^verbatim>\<open>p->field\<close> on a pointer \<open>p\<close>, null being \<open>None\<close>.\<close>

definition deref :: "'a option \<Rightarrow> fault + 'a" where
  "deref p = (case p of None \<Rightarrow> Inl NullDereference | Some x \<Rightarrow> Inr x)"

subsection \<open>Emitted assembly\<close>

text \<open>
  Every call of \<^verbatim>\<open>emit\<close> and \<^verbatim>\<open>emitLabel\<close> appends one line to the output text.
  A line is kept as an instruction value; \<open>render\<close> below gives its text, the string the
  C++ passes to \<^verbatim>\<open>emit\<close>.
\<close>

datatype reg = T0 | T1 | T2 | A0 | SP | FP | RA

datatype instr =
    Directive string
  | Label string
  | Li reg int
  | La reg string
  | Addi reg reg int
  | Lw reg int reg
  | Sw reg int reg
  | Add reg reg reg
  | Sub reg reg reg
  | Mul reg reg reg
  | Div reg reg reg
  | Rem reg reg reg
  | Slt reg reg reg
  | And reg reg reg
  | Or reg reg reg
  | Xori reg reg int
  | Seqz reg reg
  | Snez reg reg
  | Neg reg reg
  | Beqz reg string
  | J string
  | Call string
  | Ret

subsubsection \<open>\<^verbatim>\<open>std::to_string\<close> on integers\<close>

definition digit_char :: "nat \<Rightarrow> char" where
  "digit_char d = ''0123456789'' ! d"

fun to_string_nat :: "nat \<Rightarrow> string" where
  "to_string_nat n =
     (if n < 10 then [digit_char n]
      else to_string_nat (n div 10) @ [digit_char (n mod 10)])"

declare to_string_nat.simps [simp del]

definition to_string :: "int \<Rightarrow> string" where
  "to_string i = (if i < 0 then CHR ''-'' # to_string_nat (nat (- i)) else to_string_nat (nat i))"

fun reg_name :: "reg \<Rightarrow> string" where
  "reg_name T0 = ''t0''"
| "reg_name T1 = ''t1''"
| "reg_name T2 = ''t2''"
| "reg_name A0 = ''a0''"
| "reg_name SP = ''sp''"
| "reg_name FP = ''fp''"
| "reg_name RA = ''ra''"

definition rrr :: "string \<Rightarrow> reg \<Rightarrow> reg \<Rightarrow> reg \<Rightarrow> string" where
  "rrr m d a b = m @ '' '' @ reg_name d @ '', '' @ reg_name a @ '', '' @ reg_name b"

fun render :: "instr \<Rightarrow> string" where
  "render (Directive s) = s"
| "render (Label l) = l @ '':''"
| "render (Li d i) = ''li '' @ reg_name d @ '', '' @ to_string i"
| "render (La d s) = ''la '' @ reg_name d @ '', '' @ s"
| "render (Addi d a i) = ''addi '' @ reg_name d @ '', '' @ reg_name a @ '', '' @ to_string i"
| "render (Lw d off b) = ''lw '' @ reg_name d @ '', '' @ to_string off @ ''('' @ reg_name b @ '')''"
| "render (Sw s off b) = ''sw '' @ reg_name s @ '', '' @ to_string off @ ''('' @ reg_name b @ '')''"
| "render (Add d a b) = rrr ''add'' d a b"
| "render (Sub d a b) = rrr ''sub'' d a b"
| "render (Mul d a b) = rrr ''mul'' d a b"
| "render (Div d a b) = rrr ''div'' d a b"
| "render (Rem d a b) = rrr ''rem'' d a b"
| "render (Slt d a b) = rrr ''slt'' d a b"
| "render (And d a b) = rrr ''and'' d a b"
| "render (Or d a b) = rrr ''or'' d a b"
| "render (Xori d a i) = ''xori '' @ reg_name d @ '', '' @ reg_name a @ '', '' @ to_string i"
| "render (Seqz d a) = ''seqz '' @ reg_name d @ '', '' @ reg_name a"
| "render (Snez d a) = ''snez '' @ reg_name d @ '', '' @ reg_name a"
| "render (Neg d a) = ''neg '' @ reg_name d @ '', '' @ reg_name a"
| "render (Beqz a l) = ''beqz '' @ reg_name a @ '', '' @ l"
| "render (J l) = ''j '' @ l"
| "render (Call f) = ''call '' @ f"
| "render Ret = ''ret''"

definition text_of :: "instr list \<Rightarrow> string" where
  "text_of is = concat (map (\<lambda>i. render i @ [CHR 0x0A]) is)"

subsection \<open>Generator state\<close>

text \<open>
  Modelled from the spec: the class declaration (\<^verbatim>\<open>codegen/riscv.hpp\<close>) is not among
  the sources, so the members' types are taken from their uses and from the spec's data
  model: the label counter ``a monotonically increasing integer'', the frame table a map
  from names to signed offsets, the known-constants table a map from names to
  \<^verbatim>\<open>int\<close> values (they are returned as \<^verbatim>\<open>int\<close>), the signature table a map to
  metadata this file never reads.
\<close>

typedecl FunctionInfo

record codegen =
  "output" :: "instr list"
  labelCounter :: int
  stackOffset :: int
  localVariables :: "string \<rightharpoonup> int"
  constantValues :: "string \<rightharpoonup> cint"
  optimizationsEnabled :: bool
  currentFunction :: string
  "functions" :: "string \<rightharpoonup> FunctionInfo"

definition emit :: "instr \<Rightarrow> codegen \<Rightarrow> codegen" where
  "emit i st = st\<lparr>output := output st @ [i]\<rparr>"

definition emitLabel :: "string \<Rightarrow> codegen \<Rightarrow> codegen" where
  "emitLabel l st = st\<lparr>output := output st @ [Label l]\<rparr>"

text \<open>Several \<^verbatim>\<open>emit\<close> calls in a row, first to last.\<close>

fun emits :: "instr list \<Rightarrow> codegen \<Rightarrow> codegen" where
  "emits [] st = st"
| "emits (i # is) st = emits is (emit i st)"

definition newLabel :: "string \<Rightarrow> codegen \<Rightarrow> string \<times> codegen" where
  "newLabel prefix st =
     (prefix @ to_string (labelCounter st), st\<lparr>labelCounter := labelCounter st + 1\<rparr>)"

subsection \<open>Constant evaluator\<close>

text \<open>
  Both functions take an \<^verbatim>\<open>Expression*\<close>, which may be null (\<open>None\<close>).
  \<^verbatim>\<open>dynamic_cast\<close> gives a pointer to the node as an object of the asked class, or
  null when the node is of another class or the pointer itself is null; the object is
  kept as the one field read from it (\<^verbatim>\<open>value\<close>, \<^verbatim>\<open>name\<close>).  Every \<^verbatim>\<open>->\<close> of the
  source is a \<open>deref\<close>.
\<close>

fun dynamic_cast_NumberLiteral :: "expr option \<Rightarrow> cint option" where
  "dynamic_cast_NumberLiteral (Some (NumberLiteral v)) = Some v"
| "dynamic_cast_NumberLiteral _ = None"

fun dynamic_cast_Identifier :: "expr option \<Rightarrow> string option" where
  "dynamic_cast_Identifier (Some (Identifier name)) = Some name"
| "dynamic_cast_Identifier _ = None"

definition isConstantExpression :: "codegen \<Rightarrow> expr option \<Rightarrow> fault + bool" where
  "isConstantExpression st expr =
     (if expr = None then Inr False
      else if dynamic_cast_NumberLiteral expr \<noteq> None then Inr True
      else
        (let ident = dynamic_cast_Identifier expr
         in if ident \<noteq> None then
              and_then (deref ident) (\<lambda>name. Inr (constantValues st name \<noteq> None))
            else Inr False))"

definition evaluateConstantExpression :: "codegen \<Rightarrow> expr option \<Rightarrow> fault + cint" where
  "evaluateConstantExpression st expr =
     (let numLit = dynamic_cast_NumberLiteral expr
      in if numLit \<noteq> None then deref numLit
         else
           (let ident = dynamic_cast_Identifier expr
            in if ident \<noteq> None then
                 and_then (deref ident) (\<lambda>name.
                   case constantValues st name of Some v \<Rightarrow> Inr v | None \<Rightarrow> Inr 0)
               else Inr 0))"

subsection \<open>Expression lowering\<close>

text \<open>
  The \<^verbatim>\<open>int\<close> operators of the fold.  Sums, differences and products wrap around
  (C++ leaves signed overflow undefined; the wrap is what the machine computes).
  \<^verbatim>\<open>/\<close> and \<^verbatim>\<open>%\<close> truncate towards zero (\<open>sdiv\<close>, \<open>smod\<close> on \<open>int\<close>) and trap
  on a zero divisor and on the least \<^verbatim>\<open>int\<close> divided by \<open>- 1\<close>.
\<close>

definition c_div :: "cint \<Rightarrow> cint \<Rightarrow> fault + cint" where
  "c_div a b =
     (if b = 0 \<or> (a = - 2147483648 \<and> b = - 1) then Inl ArithmeticTrap
      else Inr (word_of_int (sint a sdiv sint b)))"

definition c_mod :: "cint \<Rightarrow> cint \<Rightarrow> fault + cint" where
  "c_mod a b =
     (if b = 0 \<or> (a = - 2147483648 \<and> b = - 1) then Inl ArithmeticTrap
      else Inr (word_of_int (sint a smod sint b)))"

text \<open>
  The \<^verbatim>\<open>switch\<close> of \<^verbatim>\<open>optimizeConstantFolding\<close>: \<open>Some\<close> the folded value, \<open>None\<close>
  where the C++ returns without emitting (zero divisor, operator outside the five).
  The source guards the divisions against a zero divisor only.
\<close>

fun fold_switch :: "binop \<Rightarrow> cint \<Rightarrow> cint \<Rightarrow> fault + cint option" where
  "fold_switch ADD leftVal rightVal = Inr (Some (leftVal + rightVal))"
| "fold_switch SUB leftVal rightVal = Inr (Some (leftVal - rightVal))"
| "fold_switch MUL leftVal rightVal = Inr (Some (leftVal * rightVal))"
| "fold_switch DIV leftVal rightVal =
     (if rightVal \<noteq> 0 then and_then (c_div leftVal rightVal) (\<lambda>result. Inr (Some result))
      else Inr None)"
| "fold_switch MOD leftVal rightVal =
     (if rightVal \<noteq> 0 then and_then (c_mod leftVal rightVal) (\<lambda>result. Inr (Some result))
      else Inr None)"
| "fold_switch _ leftVal rightVal = Inr None"

text \<open>The operator instructions of the non-folded path (the second \<^verbatim>\<open>switch\<close>).\<close>

fun op_code :: "binop \<Rightarrow> instr list" where
  "op_code ADD = [Add T0 T0 T1]"
| "op_code SUB = [Sub T0 T0 T1]"
| "op_code MUL = [Mul T0 T0 T1]"
| "op_code DIV = [Div T0 T0 T1]"
| "op_code MOD = [Rem T0 T0 T1]"
| "op_code LT = [Slt T0 T0 T1]"
| "op_code LE = [Slt T2 T1 T0, Xori T0 T2 1]"
| "op_code GT = [Slt T0 T1 T0]"
| "op_code GE = [Slt T2 T0 T1, Xori T0 T2 1]"
| "op_code EQ = [Sub T0 T0 T1, Seqz T0 T0]"
| "op_code NE = [Sub T0 T0 T1, Snez T0 T0]"
| "op_code AND = [And T0 T0 T1]"
| "op_code OR = [Or T0 T0 T1]"

fun unop_code :: "unop \<Rightarrow> instr list" where
  "unop_code PLUS = []"
| "unop_code MINUS = [Neg T0 T0]"
| "unop_code NOT = [Seqz T0 T0]"

text \<open>
  \<open>visit_expr\<close> is \<^verbatim>\<open>accept\<close> on an expression node, dispatching to the
  \<^verbatim>\<open>visit\<close> overload of its class; \<open>visit_args\<close> is the loop over the arguments of
  a call.  With optimizations enabled \<^verbatim>\<open>visit(BinaryExpression&)\<close> calls
  \<^verbatim>\<open>optimizeConstantFolding\<close> and returns, whatever that call did.  The children of a
  node are not null (the tree arrives well-formed).
\<close>

fun visit_expr :: "expr \<Rightarrow> codegen \<Rightarrow> fault + codegen"
  and visit_args :: "expr list \<Rightarrow> codegen \<Rightarrow> fault + codegen"
  and optimizeConstantFolding :: "binop \<Rightarrow> expr \<Rightarrow> expr \<Rightarrow> codegen \<Rightarrow> fault + codegen"
where
  "visit_expr (NumberLiteral v) st =
     Inr (emits [Li T0 (sint v), Addi SP SP (- 4), Sw T0 0 SP] st)"
| "visit_expr (Identifier name) st =
     Inr (case localVariables st name of
            Some off \<Rightarrow> emits [Lw T0 off FP, Addi SP SP (- 4), Sw T0 0 SP] st
          | None \<Rightarrow> emits [La T0 name, Lw T0 0 T0, Addi SP SP (- 4), Sw T0 0 SP] st)"
| "visit_expr (UnaryExpression uop operand) st =
     and_then (visit_expr operand st) (\<lambda>st1.
       Inr (emit (Sw T0 0 SP) (emits (unop_code uop) (emit (Lw T0 0 SP) st1))))"
| "visit_expr (BinaryExpression bop left right) st =
     (if optimizationsEnabled st then optimizeConstantFolding bop left right st
      else
        and_then (visit_expr left st) (\<lambda>st1.
        and_then (visit_expr right st1) (\<lambda>st2.
          Inr (emit (Sw T0 0 SP) (emits (op_code bop)
                 (emits [Lw T1 0 SP, Addi SP SP 4, Lw T0 0 SP] st2))))))"
| "visit_expr (FunctionCall functionName arguments) st =
     and_then (visit_args arguments st) (\<lambda>st1.
       Inr (emits [Call functionName, Addi SP SP (int (length arguments) * 4),
                   Addi SP SP (- 4), Sw A0 0 SP] st1))"
| "visit_args [] st = Inr st"
| "visit_args (arg # args) st = and_then (visit_expr arg st) (\<lambda>st1. visit_args args st1)"
| "optimizeConstantFolding bop left right st =
     (if \<not> optimizationsEnabled st then Inr st
      else
        and_then (isConstantExpression st (Some left)) (\<lambda>leftConstant.
        and_then (if leftConstant then isConstantExpression st (Some right) else Inr False)
          (\<lambda>bothConstant.
        if bothConstant then
          and_then (evaluateConstantExpression st (Some left)) (\<lambda>leftVal.
          and_then (evaluateConstantExpression st (Some right)) (\<lambda>rightVal.
          and_then (fold_switch bop leftVal rightVal) (\<lambda>folded.
            case folded of
              None \<Rightarrow> Inr st
            | Some result \<Rightarrow>
                Inr (emits [Li T0 (sint result), Addi SP SP (- 4), Sw T0 0 SP] st))))
        else
          and_then (isConstantExpression st (Some right)) (\<lambda>rightConstant.
          if rightConstant then
            and_then (evaluateConstantExpression st (Some right)) (\<lambda>rightVal.
              if bop = ADD \<and> rightVal = 0 then visit_expr left st
              else if bop = MUL \<and> rightVal = 1 then visit_expr left st
              else if bop = MUL \<and> rightVal = 0 then
                Inr (emits [Li T0 0, Addi SP SP (- 4), Sw T0 0 SP] st)
              else Inr st)
          else Inr st))))"

subsection \<open>Statement lowering\<close>

text \<open>
  \<^verbatim>\<open>generateEpilogue\<close> and \<^verbatim>\<open>generatePrologue\<close>.  For a positive \<open>localSize\<close>
  (the only caller passes 8) the text \<^verbatim>\<open>"addi sp, sp, -" + to_string(localSize)\<close>
  is that of the immediate \<open>- localSize\<close>.
\<close>

definition generateEpilogue :: "codegen \<Rightarrow> codegen" where
  "generateEpilogue st = emits [Lw RA (- 4) FP, Lw FP (- 8) FP, Addi SP SP 8, Ret] st"

definition generatePrologue :: "string \<Rightarrow> int \<Rightarrow> codegen \<Rightarrow> codegen" where
  "generatePrologue funcName localSize st =
     emits [Addi SP SP (- localSize), Sw RA (localSize - 4) SP, Sw FP (localSize - 8) SP,
            Addi FP SP localSize]
       (emitLabel funcName st)"

fun visit_stmt :: "stmt \<Rightarrow> codegen \<Rightarrow> fault + codegen"
  and visit_stmts :: "stmt list \<Rightarrow> codegen \<Rightarrow> fault + codegen"
where
  "visit_stmt (AssignmentStatement variable val) st =
     and_then (visit_expr val st) (\<lambda>sv.
       let st1 = emits [Lw T0 0 SP, Addi SP SP 4] sv
       in Inr (case localVariables st1 variable of
                 Some off \<Rightarrow> emit (Sw T0 off FP) st1
               | None \<Rightarrow> emits [La T1 variable, Sw T0 0 T1] st1))"
| "visit_stmt (VariableDeclaration name initializer) st =
     and_then
       (case initializer of
          Some e \<Rightarrow> and_then (visit_expr e st) (\<lambda>sv. Inr (emits [Lw T0 0 SP, Addi SP SP 4] sv))
        | None \<Rightarrow> Inr (emit (Li T0 0) st))
       (\<lambda>st1.
          let st2 = st1\<lparr>stackOffset := stackOffset st1 - 4\<rparr>;
              st3 = st2\<lparr>localVariables := (localVariables st2)(name \<mapsto> stackOffset st2)\<rparr>
          in Inr (emit (Sw T0 (stackOffset st3) FP) st3))"
| "visit_stmt (Block statements) st = visit_stmts statements st"
| "visit_stmt (IfStatement condition thenStatement elseStatement) st =
     (let (elseLabel, st1) = newLabel ''else'' st;
          (endLabel, st2) = newLabel ''endif'' st1
      in and_then (visit_expr condition st2) (\<lambda>sc.
         and_then (visit_stmt thenStatement
                     (emits [Lw T0 0 SP, Addi SP SP 4, Beqz T0 elseLabel] sc)) (\<lambda>sthen.
         let st5 = emitLabel elseLabel (emit (J endLabel) sthen)
         in and_then (case elseStatement of Some s \<Rightarrow> visit_stmt s st5 | None \<Rightarrow> Inr st5)
              (\<lambda>st6. Inr (emitLabel endLabel st6)))))"
| "visit_stmt (WhileStatement condition body) st =
     (let (loopLabel, st1) = newLabel ''loop'' st;
          (endLabel, st2) = newLabel ''endloop'' st1;
          st3 = emitLabel loopLabel st2
      in and_then (visit_expr condition st3) (\<lambda>sc.
         and_then (visit_stmt body (emits [Lw T0 0 SP, Addi SP SP 4, Beqz T0 endLabel] sc))
           (\<lambda>sbody. Inr (emitLabel endLabel (emit (J loopLabel) sbody)))))"
| "visit_stmt BreakStatement st = Inr (emit (J ''break_label'') st)"
| "visit_stmt ContinueStatement st = Inr (emit (J ''continue_label'') st)"
| "visit_stmt (ReturnStatement val) st =
     and_then
       (case val of
          Some e \<Rightarrow> and_then (visit_expr e st) (\<lambda>sv. Inr (emits [Lw A0 0 SP, Addi SP SP 4] sv))
        | None \<Rightarrow> Inr (emit (Li A0 0) st))
       (\<lambda>st1. Inr (generateEpilogue st1))"
| "visit_stmt (ExpressionStatement expression) st =
     and_then (visit_expr expression st) (\<lambda>sv. Inr (emit (Addi SP SP 4) sv))"
| "visit_stmts [] st = Inr st"
| "visit_stmts (s # ss) st = and_then (visit_stmt s st) (\<lambda>st1. visit_stmts ss st1)"

subsection \<open>Functions, the unit, and \<^verbatim>\<open>generate\<close>\<close>

fun visit_FunctionDefinition :: "funcdef \<Rightarrow> codegen \<Rightarrow> fault + codegen" where
  "visit_FunctionDefinition (FunctionDefinition name body) st =
     (let st1 = st\<lparr>currentFunction := name, localVariables := Map.empty, stackOffset := 0\<rparr>;
          localSize = 8
      in and_then (visit_stmt body (generatePrologue name localSize st1)) (\<lambda>sbody.
           Inr (generateEpilogue sbody)))"

fun visit_CompilationUnit :: "compilation_unit \<Rightarrow> codegen \<Rightarrow> fault + codegen" where
  "visit_CompilationUnit [] st = Inr st"
| "visit_CompilationUnit (func # funcs) st =
     and_then (visit_FunctionDefinition func st) (\<lambda>st1. visit_CompilationUnit funcs st1)"

text \<open>
  \<open>generate_run\<close> is the body of \<^verbatim>\<open>generate\<close> up to its \<^verbatim>\<open>return\<close>, as a state;
  \<open>generate\<close> is the returned text.  The members \<^verbatim>\<open>generate\<close> does not assign keep
  the values the generator object had.
\<close>

definition generate_run ::
  "compilation_unit \<Rightarrow> (string \<rightharpoonup> FunctionInfo) \<Rightarrow> codegen \<Rightarrow> fault + codegen" where
  "generate_run unit funcTable st =
     visit_CompilationUnit unit
       (emits [Directive ''.data'', Directive ''.text'', Directive ''.global main'']
          (st\<lparr>output := [], functions := funcTable, stackOffset := 0, labelCounter := 0\<rparr>))"

definition generate ::
  "compilation_unit \<Rightarrow> (string \<rightharpoonup> FunctionInfo) \<Rightarrow> codegen \<Rightarrow> fault + string" where
  "generate unit funcTable st =
     and_then (generate_run unit funcTable st) (\<lambda>st1. Inr (text_of (output st1)))"

section \<open>Vocabulary of the properties\<close>

subsection \<open>A generator object before its first run\<close>

text \<open>
  The flag and the known-constants table are set from outside this file; everything
  else is empty.  Used for the concrete runs below.
\<close>

definition initial :: "bool \<Rightarrow> (string \<rightharpoonup> cint) \<Rightarrow> codegen" where
  "initial opt consts =
     \<lparr>output = [], labelCounter = 0, stackOffset = 0, localVariables = Map.empty,
      constantValues = consts, optimizationsEnabled = opt, currentFunction = [],
      functions = Map.empty\<rparr>"

subsection \<open>Stack-pointer adjustments of emitted code\<close>

text \<open>
  The operand stack is the machine stack: a push is \<^verbatim>\<open>addi sp, sp, -4\<close>, a pop
  \<^verbatim>\<open>addi sp, sp, 4\<close>.  \<open>sp_delta\<close> sums the immediates the emitted lines add to
  \<^verbatim>\<open>sp\<close>, in bytes: \<open>- 4\<close> is one word pushed, \<open>0\<close> a balanced sequence.
\<close>

fun sp_adjust :: "instr \<Rightarrow> int" where
  "sp_adjust (Addi SP SP k) = k"
| "sp_adjust _ = 0"

definition sp_delta :: "instr list \<Rightarrow> int" where
  "sp_delta is = sum_list (map sp_adjust is)"

text \<open>The number of \<^verbatim>\<open>return\<close> statements in a statement.\<close>

fun returns :: "stmt \<Rightarrow> nat" where
  "returns (ReturnStatement val) = 1"
| "returns (Block statements) = sum_list (map returns statements)"
| "returns (IfStatement condition thenStatement elseStatement) =
     returns thenStatement + (case elseStatement of Some s \<Rightarrow> returns s | None \<Rightarrow> 0)"
| "returns (WhileStatement condition body) = returns body"
| "returns _ = 0"

subsection \<open>Constant expressions\<close>

text \<open>
  What the constant evaluator is to compute, on a node: an expression is constant when
  it is a numeric literal or an identifier of the known-constants table; its value is
  the literal's, or the table's, and 0 for any other expression.
\<close>

fun is_constant :: "codegen \<Rightarrow> expr \<Rightarrow> bool" where
  "is_constant st (NumberLiteral v) = True"
| "is_constant st (Identifier name) = (name \<in> dom (constantValues st))"
| "is_constant st _ = False"

fun constant_value :: "codegen \<Rightarrow> expr \<Rightarrow> cint" where
  "constant_value st (NumberLiteral v) = v"
| "constant_value st (Identifier name) = (case constantValues st name of Some v \<Rightarrow> v | None \<Rightarrow> 0)"
| "constant_value st _ = 0"

subsection \<open>Binary expressions that emit code under optimization\<close>

text \<open>
  With optimizations enabled a binary expression emits code only where
  \<^verbatim>\<open>optimizeConstantFolding\<close> does: a full fold whose \<^verbatim>\<open>switch\<close> yields a value
  (it neither returns early nor traps), or one of the three simplifications.
  \<open>folds st e\<close> says that every binary expression the optimizing lowering of \<open>e\<close>
  reaches is of that kind (same tests, in the same order, as
  \<^verbatim>\<open>optimizeConstantFolding\<close>); \<open>folds_stmt\<close> says it of every expression of a
  statement.
\<close>

fun yields_value :: "fault + cint option \<Rightarrow> bool" where
  "yields_value (Inr (Some result)) = True"
| "yields_value _ = False"

fun folds :: "codegen \<Rightarrow> expr \<Rightarrow> bool" where
  "folds st (NumberLiteral v) = True"
| "folds st (Identifier name) = True"
| "folds st (UnaryExpression uop operand) = folds st operand"
| "folds st (FunctionCall functionName arguments) = list_all (folds st) arguments"
| "folds st (BinaryExpression bop left right) =
     (if is_constant st left \<and> is_constant st right then
        yields_value (fold_switch bop (constant_value st left) (constant_value st right))
      else if is_constant st right then
        (let rightVal = constant_value st right
         in if bop = ADD \<and> rightVal = 0 then folds st left
            else if bop = MUL \<and> rightVal = 1 then folds st left
            else if bop = MUL \<and> rightVal = 0 then True
            else False)
      else False)"

fun folds_stmt :: "codegen \<Rightarrow> stmt \<Rightarrow> bool" where
  "folds_stmt st (AssignmentStatement variable val) = folds st val"
| "folds_stmt st (VariableDeclaration name initializer) =
     (case initializer of Some e \<Rightarrow> folds st e | None \<Rightarrow> True)"
| "folds_stmt st (Block statements) = list_all (folds_stmt st) statements"
| "folds_stmt st (IfStatement condition thenStatement elseStatement) =
     (folds st condition \<and> folds_stmt st thenStatement \<and>
      (case elseStatement of Some s \<Rightarrow> folds_stmt st s | None \<Rightarrow> True))"
| "folds_stmt st (WhileStatement condition body) = (folds st condition \<and> folds_stmt st body)"
| "folds_stmt st BreakStatement = True"
| "folds_stmt st ContinueStatement = True"
| "folds_stmt st (ReturnStatement val) = (case val of Some e \<Rightarrow> folds st e | None \<Rightarrow> True)"
| "folds_stmt st (ExpressionStatement expression) = folds st expression"

subsection \<open>Exact integer arithmetic\<close>

text \<open>
  The value of \<open>a op b\<close> over the integers, for the five folded operators; the quotient
  truncates towards zero and the remainder has the sign of the dividend, as in the
  source language and on the target.  \<open>int32\<close> is the range of \<^verbatim>\<open>int\<close>.
\<close>

fun spec_arith :: "binop \<Rightarrow> int \<Rightarrow> int \<Rightarrow> int" where
  "spec_arith ADD a b = a + b"
| "spec_arith SUB a b = a - b"
| "spec_arith MUL a b = a * b"
| "spec_arith DIV a b = a sdiv b"
| "spec_arith MOD a b = a smod b"
| "spec_arith _ a b = 0"

definition int32 :: "int \<Rightarrow> bool" where
  "int32 k = (- 2147483648 \<le> k \<and> k \<le> 2147483647)"

subsection \<open>Meaning of the straight-line instructions\<close>

text \<open>
  What the emitted arithmetic computes is fixed by the target, not by the generator:
  the RV32IM instructions on 32-bit registers.  Memory maps the address of a word to
  the word; the generated code only reads and writes whole words.  \<^verbatim>\<open>div\<close> and
  \<^verbatim>\<open>rem\<close> do not trap on the target (a zero divisor gives \<open>- 1\<close> and the dividend,
  an overflowing quotient wraps).  Labels, jumps, calls and address loads are not
  straight-line code: \<open>None\<close>.
\<close>

record machine =
  regs :: "reg \<Rightarrow> cint"
  mem :: "cint \<Rightarrow> cint"

definition set_reg :: "reg \<Rightarrow> cint \<Rightarrow> machine \<Rightarrow> machine" where
  "set_reg d v m = m\<lparr>regs := (regs m)(d := v)\<rparr>"

fun exec_instr :: "instr \<Rightarrow> machine \<Rightarrow> machine option" where
  "exec_instr (Li d i) m = Some (set_reg d (word_of_int i) m)"
| "exec_instr (Addi d a i) m = Some (set_reg d (regs m a + word_of_int i) m)"
| "exec_instr (Lw d off b) m = Some (set_reg d (mem m (regs m b + word_of_int off)) m)"
| "exec_instr (Sw s off b) m =
     Some (m\<lparr>mem := (mem m)(regs m b + word_of_int off := regs m s)\<rparr>)"
| "exec_instr (Add d a b) m = Some (set_reg d (regs m a + regs m b) m)"
| "exec_instr (Sub d a b) m = Some (set_reg d (regs m a - regs m b) m)"
| "exec_instr (Mul d a b) m = Some (set_reg d (regs m a * regs m b) m)"
| "exec_instr (Div d a b) m =
     Some (set_reg d (if regs m b = 0 then - 1
                      else word_of_int (sint (regs m a) sdiv sint (regs m b))) m)"
| "exec_instr (Rem d a b) m =
     Some (set_reg d (if regs m b = 0 then regs m a
                      else word_of_int (sint (regs m a) smod sint (regs m b))) m)"
| "exec_instr (And d a b) m = Some (set_reg d (and (regs m a) (regs m b)) m)"
| "exec_instr (Or d a b) m = Some (set_reg d (or (regs m a) (regs m b)) m)"
| "exec_instr (Slt d a b) m =
     Some (set_reg d (if sint (regs m a) < sint (regs m b) then 1 else 0) m)"
| "exec_instr (Xori d a i) m = Some (set_reg d (xor (regs m a) (word_of_int i)) m)"
| "exec_instr (Seqz d a) m = Some (set_reg d (if regs m a = 0 then 1 else 0) m)"
| "exec_instr (Snez d a) m = Some (set_reg d (if regs m a = 0 then 0 else 1) m)"
| "exec_instr (Neg d a) m = Some (set_reg d (- regs m a) m)"
| "exec_instr _ m = None"

fun exec :: "instr list \<Rightarrow> machine \<Rightarrow> machine option" where
  "exec [] m = Some m"
| "exec (i # is) m = (case exec_instr i m of None \<Rightarrow> None | Some m' \<Rightarrow> exec is m')"

subsection \<open>Labels in the output\<close>

text \<open>
  The names defined by label lines, in order.  Every name \<^verbatim>\<open>newLabel\<close> returns is
  defined once by \<^verbatim>\<open>emitLabel\<close> (in the two control-flow visitors); the other
  label lines are the function entries of \<^verbatim>\<open>generatePrologue\<close>.
\<close>

fun label_of :: "instr \<Rightarrow> string list" where
  "label_of (Label l) = [l]"
| "label_of _ = []"

definition label_defs :: "instr list \<Rightarrow> string list" where
  "label_defs is = concat (map label_of is)"

fun fname :: "funcdef \<Rightarrow> string" where
  "fname (FunctionDefinition name body) = name"

text \<open>The body of a function definition.\<close>

fun fbody :: "funcdef \<Rightarrow> stmt" where
  "fbody (FunctionDefinition name body) = body"

text \<open>The names \<^verbatim>\<open>newLabel\<close> gives for the counter values \<open>lo \<le> k < hi\<close>.\<close>

definition label_prefixes :: "string set" where
  "label_prefixes = {''else'', ''endif'', ''loop'', ''endloop''}"

definition issued :: "int \<Rightarrow> int \<Rightarrow> string set" where
  "issued lo hi = {p @ to_string k | p k. p \<in> label_prefixes \<and> lo \<le> k \<and> k < hi}"

subsection \<open>Relations between generator states\<close>

text \<open>
  \<open>frame\<close>: only the output grew, and by no label line (expression lowering).
  \<open>keeps\<close>: flag and known-constants table unchanged, label counter not lowered.
  \<open>issues\<close>: the label lines added to the output are pairwise distinct names of the
  counter values passed in between, one for each.  \<open>unit_issues\<close>: the same up to
  order, beside the given function-entry labels.
\<close>

definition frame :: "codegen \<Rightarrow> codegen \<Rightarrow> bool" where
  "frame st st' \<longleftrightarrow>
     labelCounter st' = labelCounter st \<and> stackOffset st' = stackOffset st \<and>
     localVariables st' = localVariables st \<and> constantValues st' = constantValues st \<and>
     optimizationsEnabled st' = optimizationsEnabled st \<and>
     label_defs (output st') = label_defs (output st)"

definition keeps :: "codegen \<Rightarrow> codegen \<Rightarrow> bool" where
  "keeps st st' \<longleftrightarrow>
     optimizationsEnabled st' = optimizationsEnabled st \<and>
     constantValues st' = constantValues st \<and>
     labelCounter st \<le> labelCounter st'"

definition issues :: "codegen \<Rightarrow> codegen \<Rightarrow> bool" where
  "issues st st' \<longleftrightarrow>
     (\<exists>L. label_defs (output st') = label_defs (output st) @ L \<and> distinct L \<and>
          set L \<subseteq> issued (labelCounter st) (labelCounter st') \<and>
          int (length L) = labelCounter st' - labelCounter st)"

definition unit_issues :: "string list \<Rightarrow> codegen \<Rightarrow> codegen \<Rightarrow> bool" where
  "unit_issues names st st' \<longleftrightarrow>
     (\<exists>L. mset (label_defs (output st')) = mset (label_defs (output st)) + mset names + mset L \<and>
          distinct L \<and> set L \<subseteq> issued (labelCounter st) (labelCounter st') \<and>
          int (length L) = labelCounter st' - labelCounter st)"

subsection \<open>Reading decimal digits back\<close>

definition is_digit :: "char \<Rightarrow> bool" where
  "is_digit c = (c \<in> set ''0123456789'')"

definition digit_val :: "char \<Rightarrow> nat" where
  "digit_val c = of_char c - 48"

definition parse_nat :: "string \<Rightarrow> nat" where
  "parse_nat s = foldl (\<lambda>a c. 10 * a + digit_val c) 0 s"

section \<open>Properties\<close>

subsection \<open>Auxiliary facts\<close>

lemma emits_output: "emits is st = st\<lparr>output := output st @ is\<rparr>"
  by (induction "is" arbitrary: st) (simp_all add: emit_def)

lemmas emit_simps = emits_output emit_def emitLabel_def

lemmas to_string_eval = to_string_def to_string_nat.simps digit_char_def

subsection \<open>Results and faults\<close>

lemma and_then_simps [simp]:
  "and_then (Inr x) f = f x"
  "and_then (Inl e) f = Inl e"
  by (simp_all add: and_then_def)

lemma and_then_eq_Inr: "and_then r f = Inr y \<longleftrightarrow> (\<exists>x. r = Inr x \<and> f x = Inr y)"
  by (cases r) simp_all

lemma and_then_InrE:
  assumes "and_then r f = Inr y"
  obtains x where "r = Inr x" "f x = Inr y"
  using assms by (cases r) simp_all

subsection \<open>Constant evaluator\<close>

text \<open>
  On a node both functions return, with the values of \<open>is_constant\<close> and
  \<open>constant_value\<close>.
\<close>

lemma isConstantExpression_Some [simp]:
  "isConstantExpression st (Some e) = Inr (is_constant st e)"
  by (cases e) (auto simp: isConstantExpression_def deref_def Let_def)

lemma evaluateConstantExpression_Some [simp]:
  "evaluateConstantExpression st (Some e) = Inr (constant_value st e)"
  by (cases e) (simp_all add: evaluateConstantExpression_def deref_def Let_def split: option.splits)

text \<open>
  C10.  Both functions of the constant evaluator return on every expression pointer,
  null included: neither dereferences a null pointer nor faults otherwise.  On null, and
  on every expression that is neither a numeric literal nor an identifier of the
  known-constants table, \<^verbatim>\<open>isConstantExpression\<close> returns false and
  \<^verbatim>\<open>evaluateConstantExpression\<close> returns 0.  On the other expressions they return
  true and the value: a literal's own, an identifier's from the table.
\<close>

theorem constant_evaluator_total:
  "(\<exists>b. isConstantExpression st p = Inr b) \<and> (\<exists>v. evaluateConstantExpression st p = Inr v)
   \<and> isConstantExpression st None = Inr False \<and> evaluateConstantExpression st None = Inr 0
   \<and> isConstantExpression st (Some e) = Inr (is_constant st e)
   \<and> evaluateConstantExpression st (Some e) = Inr (constant_value st e)
   \<and> ((\<forall>v. e \<noteq> NumberLiteral v) \<and>
        (\<forall>name. e = Identifier name \<longrightarrow> constantValues st name = None) \<longrightarrow>
        isConstantExpression st (Some e) = Inr False \<and>
        evaluateConstantExpression st (Some e) = Inr 0)"
proof (intro conjI impI)
  show null1: "isConstantExpression st None = Inr False"
    by (simp add: isConstantExpression_def)
  show null2: "evaluateConstantExpression st None = Inr 0"
    by (simp add: evaluateConstantExpression_def)
  show "\<exists>b. isConstantExpression st p = Inr b"
    using null1 by (cases p) auto
  show "\<exists>v. evaluateConstantExpression st p = Inr v"
    using null2 by (cases p) auto
next
  assume h: "(\<forall>v. e \<noteq> NumberLiteral v) \<and>
             (\<forall>name. e = Identifier name \<longrightarrow> constantValues st name = None)"
  then show "isConstantExpression st (Some e) = Inr False"
    by (cases e) auto
  from h show "evaluateConstantExpression st (Some e) = Inr 0"
    by (cases e) auto
qed simp_all

theorem constant_evaluator_total_witness:
  "isConstantExpression (initial True [''c'' \<mapsto> 5]) None = Inr False
   \<and> evaluateConstantExpression (initial True [''c'' \<mapsto> 5]) None = Inr 0
   \<and> isConstantExpression (initial True [''c'' \<mapsto> 5])
      (Some (BinaryExpression ADD (NumberLiteral 1) (NumberLiteral 2))) = Inr False
   \<and> evaluateConstantExpression (initial True [''c'' \<mapsto> 5])
      (Some (BinaryExpression ADD (NumberLiteral 1) (NumberLiteral 2))) = Inr 0
   \<and> isConstantExpression (initial True [''c'' \<mapsto> 5]) (Some (Identifier ''d'')) = Inr False
   \<and> evaluateConstantExpression (initial True [''c'' \<mapsto> 5]) (Some (Identifier ''d'')) = Inr 0
   \<and> isConstantExpression (initial True [''c'' \<mapsto> 5]) (Some (Identifier ''c'')) = Inr True
   \<and> evaluateConstantExpression (initial True [''c'' \<mapsto> 5]) (Some (Identifier ''c'')) = Inr 5
   \<and> evaluateConstantExpression (initial True [''c'' \<mapsto> 5]) (Some (NumberLiteral 7)) = Inr 7"
  using constant_evaluator_total [of "initial True [''c'' \<mapsto> 5]" None
      "BinaryExpression ADD (NumberLiteral 1) (NumberLiteral 2)"]
    constant_evaluator_total [of "initial True [''c'' \<mapsto> 5]" None "Identifier ''d''"]
  by (simp add: initial_def)

subsection \<open>Binary expressions under optimization\<close>

lemma c_div_simps:
  "b \<noteq> 0 \<Longrightarrow> \<not> (a = - 2147483648 \<and> b = - 1) \<Longrightarrow> c_div a b = Inr (word_of_int (sint a sdiv sint b))"
  "b \<noteq> 0 \<Longrightarrow> \<not> (a = - 2147483648 \<and> b = - 1) \<Longrightarrow> c_mod a b = Inr (word_of_int (sint a smod sint b))"
  by (simp_all add: c_div_def c_mod_def)

text \<open>
  C1.  Claimed: with optimizations enabled, a binary expression that neither folds nor
  simplifies (any comparison, such as \<open>1 < 2\<close>) falls through to the normal path and
  emits real operator code.  In the code \<^verbatim>\<open>visit(BinaryExpression&)\<close> returns right
  after \<^verbatim>\<open>optimizeConstantFolding\<close>: for a comparison, whatever its operands, the
  generator state is unchanged and nothing is emitted.  With the flag off the same
  expression \<open>1 < 2\<close> emits the eleven lines of the normal path.
\<close>

theorem optimized_comparison_emits_nothing:
  "visit_expr (BinaryExpression LT left right) (st\<lparr>optimizationsEnabled := True\<rparr>)
     = Inr (st\<lparr>optimizationsEnabled := True\<rparr>)
   \<and> visit_expr (BinaryExpression LT (NumberLiteral 1) (NumberLiteral 2))
         (st\<lparr>optimizationsEnabled := False\<rparr>)
     = Inr (st\<lparr>optimizationsEnabled := False, output := output st @
       [Li T0 1, Addi SP SP (- 4), Sw T0 0 SP, Li T0 2, Addi SP SP (- 4), Sw T0 0 SP,
        Lw T1 0 SP, Addi SP SP 4, Lw T0 0 SP, Slt T0 T0 T1, Sw T0 0 SP]\<rparr>)"
  by (simp add: emit_simps)

text \<open>
  C2.  Claimed: a constant \<open>div\<close> or \<open>mod\<close> by zero aborts the fold and is lowered on the
  normal path (operands, pops, \<^verbatim>\<open>div\<close>/\<^verbatim>\<open>rem\<close>, push).  In the code the fold is
  aborted and then nothing is lowered at all: the state is unchanged.  With the flag
  off, \<open>7 / 0\<close> emits the normal path.
\<close>

theorem optimized_zero_divisor_emits_nothing:
  "visit_expr (BinaryExpression DIV (NumberLiteral a) (NumberLiteral 0))
     (st\<lparr>optimizationsEnabled := True\<rparr>) = Inr (st\<lparr>optimizationsEnabled := True\<rparr>)
   \<and> visit_expr (BinaryExpression MOD (NumberLiteral a) (NumberLiteral 0))
     (st\<lparr>optimizationsEnabled := True\<rparr>) = Inr (st\<lparr>optimizationsEnabled := True\<rparr>)
   \<and> visit_expr (BinaryExpression DIV (NumberLiteral 7) (NumberLiteral 0))
         (st\<lparr>optimizationsEnabled := False\<rparr>)
     = Inr (st\<lparr>optimizationsEnabled := False, output := output st @
       [Li T0 7, Addi SP SP (- 4), Sw T0 0 SP, Li T0 0, Addi SP SP (- 4), Sw T0 0 SP,
        Lw T1 0 SP, Addi SP SP 4, Lw T0 0 SP, Div T0 T0 T1, Sw T0 0 SP]\<rparr>)"
  by (simp add: emit_simps)

text \<open>
  C5.  With optimizations enabled and a right operand that is constant with value zero,
  \<open>x * 0\<close> emits the load of immediate zero and one push, and changes nothing else in
  the generator: \<open>x\<close> is not lowered, whatever its shape.
\<close>

theorem mul_zero_elides_operand:
  assumes "optimizationsEnabled st"
    and "isConstantExpression st (Some right) = Inr True"
    and "evaluateConstantExpression st (Some right) = Inr 0"
  shows "visit_expr (BinaryExpression MUL x right) st =
         Inr (st\<lparr>output := output st @ [Li T0 0, Addi SP SP (- 4), Sw T0 0 SP]\<rparr>)"
  using assms by (simp add: emit_simps)

theorem mul_zero_elides_operand_witness:
  "visit_expr (BinaryExpression MUL (FunctionCall ''f'' [Identifier ''y'']) (NumberLiteral 0))
     (initial True Map.empty) =
   Inr ((initial True Map.empty)\<lparr>output := [Li T0 0, Addi SP SP (- 4), Sw T0 0 SP]\<rparr>)"
  using mul_zero_elides_operand
    [of "initial True Map.empty" "NumberLiteral 0" "FunctionCall ''f'' [Identifier ''y'']"]
  by (simp add: initial_def)

text \<open>
  C6, as amended.  With optimizations enabled, \<open>x + 0\<close> and \<open>x * 1\<close> (the right operand
  constant with that value) are lowered exactly as \<open>x\<close> alone, for every \<open>x\<close> that is not
  an identifier of the known-constants table.  (For such an identifier the full fold
  comes first and loads its value as an immediate, while \<open>x\<close> alone is a memory load.)
\<close>

theorem add_zero_mul_one_as_operand:
  assumes "optimizationsEnabled st"
    and "isConstantExpression st (Some c) = Inr True"
    and "(bop = ADD \<and> evaluateConstantExpression st (Some c) = Inr 0) \<or>
         (bop = MUL \<and> evaluateConstantExpression st (Some c) = Inr 1)"
    and "\<not> (\<exists>name. x = Identifier name \<and> constantValues st name \<noteq> None)"
  shows "visit_expr (BinaryExpression bop x c) st = visit_expr x st"
  using assms by (cases x) (auto simp: emit_simps)

theorem add_zero_mul_one_as_operand_witness:
  "visit_expr (BinaryExpression ADD (Identifier ''a'') (NumberLiteral 0)) (initial True Map.empty)
     = visit_expr (Identifier ''a'') (initial True Map.empty)
   \<and> visit_expr (BinaryExpression MUL (NumberLiteral 6) (NumberLiteral 1)) (initial True Map.empty)
     = visit_expr (NumberLiteral 6) (initial True Map.empty)"
  using add_zero_mul_one_as_operand
      [of "initial True Map.empty" "NumberLiteral 0" ADD "Identifier ''a''"]
    add_zero_mul_one_as_operand
      [of "initial True Map.empty" "NumberLiteral 1" MUL "NumberLiteral 6"]
  by (simp add: initial_def)

text \<open>
  For an identifier of the known-constants table the two lowerings differ: \<open>c + 0\<close> with
  \<open>c = 5\<close> known loads the immediate 5, \<open>c\<close> alone loads from the symbol \<open>c\<close>.
\<close>

theorem add_zero_known_constant_differs:
  "visit_expr (BinaryExpression ADD (Identifier ''c'') (NumberLiteral 0))
      (initial True [''c'' \<mapsto> 5])
   \<noteq> visit_expr (Identifier ''c'') (initial True [''c'' \<mapsto> 5])"
  by (simp add: initial_def emit_simps)

subsection \<open>Break and continue\<close>

text \<open>
  C8.  Whatever the generator state (label counter, enclosing loops), \<^verbatim>\<open>break\<close> emits
  the single line \<^verbatim>\<open>j break_label\<close> and \<^verbatim>\<open>continue\<close> the single line
  \<^verbatim>\<open>j continue_label\<close>; nothing else changes.  Inside a loop the target is not the
  loop's own end label: a \<^verbatim>\<open>while\<close> lowered at counter 0 ends at \<^verbatim>\<open>endloop1\<close>.
\<close>

theorem break_continue_fixed_targets:
  "visit_stmt BreakStatement st = Inr (st\<lparr>output := output st @ [J ''break_label'']\<rparr>)
   \<and> visit_stmt ContinueStatement st = Inr (st\<lparr>output := output st @ [J ''continue_label'']\<rparr>)
   \<and> render (J ''break_label'') = ''j break_label''
   \<and> render (J ''continue_label'') = ''j continue_label''
   \<and> visit_stmt (WhileStatement (NumberLiteral 1) BreakStatement) (initial False Map.empty)
     = Inr ((initial False Map.empty)\<lparr>labelCounter := 2, output :=
       [Label ''loop0'', Li T0 1, Addi SP SP (- 4), Sw T0 0 SP, Lw T0 0 SP, Addi SP SP 4,
        Beqz T0 ''endloop1'', J ''break_label'', J ''loop0'', Label ''endloop1'']\<rparr>)"
  by (simp add: emit_simps newLabel_def initial_def to_string_eval)

subsection \<open>The full fold\<close>

text \<open>Exactness of the folded value when nothing overflows; then the division does not trap.\<close>

lemma sint_exact:
  fixes x y :: cint
  shows "int32 (sint x + sint y) \<Longrightarrow> sint (x + y) = sint x + sint y"
    and "int32 (sint x - sint y) \<Longrightarrow> sint (x - y) = sint x - sint y"
    and "int32 (sint x * sint y) \<Longrightarrow> sint (x * y) = sint x * sint y"
    and "int32 k \<Longrightarrow> sint (word_of_int k :: cint) = k"
  by (simp_all add: int32_def sint_word_ariths sint_sbintrunc' signed_take_bit_int_eq_self)

lemma least_int_quotient:
  "\<not> int32 (sint (- 2147483648 :: cint) sdiv sint (- 1 :: cint))"
  by (simp add: int32_def signed_divide_int_def)

lemma no_trap:
  fixes l r :: cint
  assumes "sint r \<noteq> 0" "int32 (sint l sdiv sint r)"
  shows "r \<noteq> 0" and "\<not> (l = - 2147483648 \<and> r = - 1)"
  using assms least_int_quotient by auto

lemma fold_switch_exact:
  assumes "bop \<in> {ADD, SUB, MUL, DIV, MOD}"
    and "bop \<in> {DIV, MOD} \<Longrightarrow> sint r \<noteq> 0 \<and> int32 (sint l sdiv sint r)"
    and "int32 (spec_arith bop (sint l) (sint r))"
  shows "\<exists>w. fold_switch bop l r = Inr (Some w) \<and> sint w = spec_arith bop (sint l) (sint r)"
proof -
  consider "bop = ADD" | "bop = SUB" | "bop = MUL" | "bop = DIV" | "bop = MOD"
    using assms(1) by auto
  then show ?thesis
  proof cases
    case 1 then show ?thesis using assms(3) by (simp add: sint_exact)
  next
    case 2 then show ?thesis using assms(3) by (simp add: sint_exact)
  next
    case 3 then show ?thesis using assms(3) by (simp add: sint_exact)
  next
    case 4
    then have "r \<noteq> 0" "\<not> (l = - 2147483648 \<and> r = - 1)"
      using assms(2) no_trap [of r l] by simp_all
    then show ?thesis using 4 assms(3) by (simp add: sint_exact c_div_simps)
  next
    case 5
    then have "r \<noteq> 0" "\<not> (l = - 2147483648 \<and> r = - 1)"
      using assms(2) no_trap [of r l] by simp_all
    then show ?thesis using 5 assms(3) by (simp add: sint_exact c_div_simps)
  qed
qed

text \<open>
  C4, as amended.  Let both operands be constant, with \<^verbatim>\<open>int\<close> values \<open>a\<close> and \<open>b\<close>,
  and the operator one of add, sub, mul, div, mod.  If the exact result \<open>a op b\<close> lies
  in the range of \<^verbatim>\<open>int\<close> (and, for div and mod, \<open>b\<close> is not zero and the quotient lies
  in that range), then with optimizations enabled the lowering emits exactly the load
  of the immediate \<open>a op b\<close> into \<^verbatim>\<open>t0\<close> and one push of \<^verbatim>\<open>t0\<close>, and changes nothing
  else.  The quotient truncates towards zero.
\<close>

theorem full_fold_exact_value:
  assumes "optimizationsEnabled st"
    and "isConstantExpression st (Some left) = Inr True"
    and "isConstantExpression st (Some right) = Inr True"
    and "evaluateConstantExpression st (Some left) = Inr leftVal"
    and "evaluateConstantExpression st (Some right) = Inr rightVal"
    and "a = sint leftVal"
    and "b = sint rightVal"
    and "bop \<in> {ADD, SUB, MUL, DIV, MOD}"
    and "bop \<in> {DIV, MOD} \<Longrightarrow> b \<noteq> 0 \<and> int32 (a sdiv b)"
    and "int32 (spec_arith bop a b)"
  shows "visit_expr (BinaryExpression bop left right) st =
         Inr (st\<lparr>output := output st @ [Li T0 (spec_arith bop a b), Addi SP SP (- 4), Sw T0 0 SP]\<rparr>)"
proof -
  obtain w where "fold_switch bop leftVal rightVal = Inr (Some w)"
    and "sint w = spec_arith bop a b"
    using fold_switch_exact [of bop rightVal leftVal] assms(6-10)
    by auto
  then show ?thesis
    using assms(1-5) by (simp add: emit_simps)
qed

theorem full_fold_exact_value_witness:
  "visit_expr (BinaryExpression DIV (NumberLiteral (- 7)) (NumberLiteral 2)) (initial True Map.empty)
   = Inr ((initial True Map.empty)\<lparr>output := [Li T0 (- 3), Addi SP SP (- 4), Sw T0 0 SP]\<rparr>)"
proof -
  let ?st = "initial True Map.empty"
  have v: "spec_arith DIV (- 7) 2 = - 3"
    by (simp add: signed_divide_int_def)
  have "visit_expr (BinaryExpression DIV (NumberLiteral (- 7)) (NumberLiteral 2)) ?st =
        Inr (?st\<lparr>output := output ?st @
          [Li T0 (spec_arith DIV (- 7) 2), Addi SP SP (- 4), Sw T0 0 SP]\<rparr>)"
  proof (rule full_fold_exact_value)
    show "optimizationsEnabled ?st" by (simp add: initial_def)
    show "isConstantExpression ?st (Some (NumberLiteral (- 7))) = Inr True" by simp
    show "isConstantExpression ?st (Some (NumberLiteral 2)) = Inr True" by simp
    show "evaluateConstantExpression ?st (Some (NumberLiteral (- 7))) = Inr (- 7)" by simp
    show "evaluateConstantExpression ?st (Some (NumberLiteral 2)) = Inr 2" by simp
    show "- 7 = sint (- 7 :: cint)" by simp
    show "2 = sint (2 :: cint)" by simp
    show "DIV \<in> {ADD, SUB, MUL, DIV, MOD}" by simp
    show "(2::int) \<noteq> 0 \<and> int32 (- 7 sdiv 2)"
      by (simp add: int32_def signed_divide_int_def)
    show "int32 (spec_arith DIV (- 7) 2)"
      unfolding v by (simp add: int32_def)
  qed
  then show ?thesis
    unfolding v by (simp add: initial_def)
qed

text \<open>
  Outside that range the immediate is not the exact result: \<open>2\<^sup>3\<^sup>0 + 2\<^sup>3\<^sup>0\<close> folds to
  \<open>- 2\<^sup>3\<^sup>1\<close>.
\<close>

theorem full_fold_overflow:
  "visit_expr (BinaryExpression ADD (NumberLiteral 1073741824) (NumberLiteral 1073741824))
      (initial True Map.empty)
     = Inr ((initial True Map.empty)\<lparr>output := [Li T0 (- 2147483648), Addi SP SP (- 4), Sw T0 0 SP]\<rparr>)
   \<and> visit_expr (BinaryExpression ADD (NumberLiteral 1073741824) (NumberLiteral 1073741824))
      (initial True Map.empty)
     \<noteq> Inr ((initial True Map.empty)\<lparr>output :=
          [Li T0 (spec_arith ADD 1073741824 1073741824), Addi SP SP (- 4), Sw T0 0 SP]\<rparr>)"
  by (simp add: initial_def emit_simps)

text \<open>
  The least \<^verbatim>\<open>int\<close> divided by \<open>- 1\<close> passes the zero test of the fold and traps in
  the generator.
\<close>

lemma fold_traps:
  "visit_expr (BinaryExpression DIV (NumberLiteral (- 2147483648)) (NumberLiteral (- 1)))
      (initial True Map.empty) = Inl ArithmeticTrap
   \<and> visit_expr (BinaryExpression MOD (NumberLiteral (- 2147483648)) (NumberLiteral (- 1)))
      (initial True Map.empty) = Inl ArithmeticTrap"
  by (simp add: initial_def c_div_def c_mod_def)

subsection \<open>Label lines and stack adjustments of instruction lists\<close>

lemma label_defs_simps [simp]:
  "label_defs [] = []"
  "label_defs (i # is) = label_of i @ label_defs is"
  "label_defs (xs @ ys) = label_defs xs @ label_defs ys"
  by (simp_all add: label_defs_def)

lemma label_defs_op_code [simp]: "label_defs (op_code bop) = []"
  by (cases bop) simp_all

lemma label_defs_unop_code [simp]: "label_defs (unop_code uop) = []"
  by (cases uop) simp_all

lemma sp_delta_simps [simp]:
  "sp_delta [] = 0"
  "sp_delta (i # is) = sp_adjust i + sp_delta is"
  "sp_delta (xs @ ys) = sp_delta xs + sp_delta ys"
  by (simp_all add: sp_delta_def)

lemma sp_delta_op_code [simp]: "sp_delta (op_code bop) = 0"
  by (cases bop) simp_all

lemma sp_delta_unop_code [simp]: "sp_delta (unop_code uop) = 0"
  by (cases uop) simp_all

subsection \<open>Decimal rendering is injective\<close>

lemma digit_char_cases:
  assumes "d < 10"
  shows "is_digit (digit_char d) \<and> digit_val (digit_char d) = d"
proof -
  from assms have "d = 0 \<or> d = 1 \<or> d = 2 \<or> d = 3 \<or> d = 4 \<or> d = 5 \<or> d = 6
    \<or> d = 7 \<or> d = 8 \<or> d = 9"
    by arith
  then show ?thesis
    by (elim disjE) (simp_all add: is_digit_def digit_val_def digit_char_def)
qed

lemma parse_nat_snoc: "parse_nat (s @ [c]) = 10 * parse_nat s + digit_val c"
  by (simp add: parse_nat_def)

lemma parse_to_string_nat: "parse_nat (to_string_nat n) = n"
proof (induction n rule: to_string_nat.induct)
  case (1 n)
  show ?case
  proof (cases "n < 10")
    case True
    then show ?thesis
      by (subst to_string_nat.simps) (simp add: parse_nat_def digit_char_cases)
  next
    case False
    then have "parse_nat (to_string_nat (n div 10)) = n div 10"
      using 1 by simp
    then show ?thesis
      using False
      by (subst to_string_nat.simps) (simp add: parse_nat_snoc digit_char_cases)
  qed
qed

lemma to_string_nat_digits: "list_all is_digit (to_string_nat n) \<and> to_string_nat n \<noteq> []"
proof (induction n rule: to_string_nat.induct)
  case (1 n)
  show ?case
  proof (cases "n < 10")
    case True
    then show ?thesis
      by (subst (1 2) to_string_nat.simps) (simp add: digit_char_cases)
  next
    case False
    then show ?thesis
      using 1 by (subst (1 2) to_string_nat.simps) (simp add: digit_char_cases)
  qed
qed

lemma to_string_nat_inj: "to_string_nat m = to_string_nat n \<Longrightarrow> m = n"
  by (metis parse_to_string_nat)

lemma digit_suffix_key:
  assumes "us \<noteq> []" "list_all is_digit (us @ e)"
  shows "is_digit (last (q @ us))"
proof -
  have "last (q @ us) = last us" using assms(1) by simp
  moreover have "last us \<in> set us" using assms(1) by simp
  ultimately show ?thesis using assms(2) by (simp add: list_all_iff)
qed

lemma digit_suffix_unique:
  assumes eq: "p @ d = q @ d'"
    and d: "list_all is_digit d" "list_all is_digit d'"
    and p: "\<not> is_digit (last p)"
    and q: "\<not> is_digit (last q)"
  shows "p = q \<and> d = d'"
proof -
  from eq have "(\<exists>us. p = q @ us \<and> us @ d = d') \<or> (\<exists>us. p @ us = q \<and> d = us @ d')"
    unfolding append_eq_append_conv2 by blast
  then show ?thesis
  proof (elim disjE exE conjE)
    fix us assume h: "p = q @ us" "us @ d = d'"
    have "us = []"
    proof (rule ccontr)
      assume "us \<noteq> []"
      then have "is_digit (last (q @ us))"
        using digit_suffix_key [of us d q] d(2) h(2) by simp
      then show False using p h(1) by simp
    qed
    then show ?thesis using h by simp
  next
    fix us assume h: "p @ us = q" "d = us @ d'"
    have "us = []"
    proof (rule ccontr)
      assume "us \<noteq> []"
      then have "is_digit (last (p @ us))"
        using digit_suffix_key [of us d' p] d(1) h(2) by simp
      then show False using q h(1) by simp
    qed
    then show ?thesis using h by simp
  qed
qed

lemma label_prefix_shape:
  "p \<in> label_prefixes \<Longrightarrow> \<not> is_digit (last p)"
  unfolding label_prefixes_def is_digit_def by (elim insertE emptyE) simp_all

lemma to_string_nonneg: "0 \<le> k \<Longrightarrow> to_string k = to_string_nat (nat k)"
  by (simp add: to_string_def)

lemma label_name_inj:
  assumes "p \<in> label_prefixes" "q \<in> label_prefixes" "0 \<le> j" "0 \<le> k"
    and "p @ to_string j = q @ to_string k"
  shows "p = q \<and> j = k"
proof -
  have "p @ to_string_nat (nat j) = q @ to_string_nat (nat k)"
    using assms(3-5) by (simp add: to_string_nonneg)
  then have "p = q \<and> to_string_nat (nat j) = to_string_nat (nat k)"
    using assms(1,2) label_prefix_shape to_string_nat_digits
    by (intro digit_suffix_unique) simp_all
  then have "p = q" "nat j = nat k"
    using to_string_nat_inj by simp_all
  then show ?thesis
    using assms(3,4) by simp
qed

lemma issued_I: "p \<in> label_prefixes \<Longrightarrow> lo \<le> k \<Longrightarrow> k < hi \<Longrightarrow> p @ to_string k \<in> issued lo hi"
  unfolding issued_def by blast

lemma issued_E:
  assumes "x \<in> issued lo hi"
  obtains p k where "x = p @ to_string k" "p \<in> label_prefixes" "lo \<le> k" "k < hi"
  using assms unfolding issued_def by blast

lemma issued_disjoint:
  assumes "0 \<le> a" "b \<le> c"
  shows "issued a b \<inter> issued c d = {}"
proof -
  have False if "x \<in> issued a b" "x \<in> issued c d" for x
  proof -
    from that(1) obtain p j where 1: "x = p @ to_string j" "p \<in> label_prefixes" "a \<le> j" "j < b"
      by (rule issued_E)
    from that(2) obtain q k where 2: "x = q @ to_string k" "q \<in> label_prefixes" "c \<le> k" "k < d"
      by (rule issued_E)
    have "p @ to_string j = q @ to_string k" using 1(1) 2(1) by simp
    moreover have "0 \<le> j" "0 \<le> k" using 1 2 assms by simp_all
    ultimately have "j = k"
      using label_name_inj [of p q j k] 1(2) 2(2) by simp
    then show False using 1 2 assms by simp
  qed
  then show ?thesis by blast
qed

lemma issued_mono: "a' \<le> a \<Longrightarrow> b \<le> b' \<Longrightarrow> issued a b \<subseteq> issued a' b'"
proof
  fix x assume "a' \<le> a" "b \<le> b'" "x \<in> issued a b"
  then obtain p k where "x = p @ to_string k" "p \<in> label_prefixes" "a \<le> k" "k < b"
    by (auto elim: issued_E)
  then show "x \<in> issued a' b'"
    using \<open>a' \<le> a\<close> \<open>b \<le> b'\<close> by (auto intro: issued_I)
qed

subsection \<open>Expression lowering only appends code\<close>

text \<open>\<^verbatim>\<open>optimizeConstantFolding\<close> with the calls of the constant evaluator resolved.\<close>

lemma optimizeConstantFolding_unfold:
  "optimizeConstantFolding bop left right st =
     (if \<not> optimizationsEnabled st then Inr st
      else if is_constant st left \<and> is_constant st right then
        and_then (fold_switch bop (constant_value st left) (constant_value st right))
          (\<lambda>folded. case folded of
             None \<Rightarrow> Inr st
           | Some result \<Rightarrow> Inr (emits [Li T0 (sint result), Addi SP SP (- 4), Sw T0 0 SP] st))
      else if is_constant st right then
        (if bop = ADD \<and> constant_value st right = 0 then visit_expr left st
         else if bop = MUL \<and> constant_value st right = 1 then visit_expr left st
         else if bop = MUL \<and> constant_value st right = 0 then
           Inr (emits [Li T0 0, Addi SP SP (- 4), Sw T0 0 SP] st)
         else Inr st)
      else Inr st)"
  by simp

declare optimizeConstantFolding.simps [simp del]

declare emits.simps [simp del]

lemma frame_refl [simp]: "frame st st"
  by (simp add: frame_def)

lemma frame_trans: "frame a b \<Longrightarrow> frame b c \<Longrightarrow> frame a c"
  by (simp add: frame_def)

lemma frame_emits:
  "label_defs is = [] \<Longrightarrow> frame st st' \<Longrightarrow> frame st (emits is st')"
  by (simp add: frame_def emit_simps)

lemma frame_emit:
  "label_of i = [] \<Longrightarrow> frame st st' \<Longrightarrow> frame st (emit i st')"
  by (simp add: frame_def emit_simps)

lemma optimize_frame:
  assumes "optimizeConstantFolding bop left right st = Inr st'"
    and IH: "\<And>s'. visit_expr left st = Inr s' \<Longrightarrow> frame st s'"
  shows "frame st st'"
proof (cases "optimizationsEnabled st")
  case False
  then show ?thesis using assms(1) by (simp add: optimizeConstantFolding_unfold)
next
  case opt: True
  show ?thesis
  proof (cases "is_constant st right")
    case False
    then show ?thesis using assms(1) opt by (simp add: optimizeConstantFolding_unfold)
  next
    case r: True
    show ?thesis
    proof (cases "is_constant st left")
      case True
      then have "and_then (fold_switch bop (constant_value st left) (constant_value st right))
          (\<lambda>folded. case folded of
             None \<Rightarrow> Inr st
           | Some result \<Rightarrow> Inr (emits [Li T0 (sint result), Addi SP SP (- 4), Sw T0 0 SP] st))
          = Inr st'"
        using assms(1) opt r by (simp add: optimizeConstantFolding_unfold)
      then obtain folded :: "cint option" where
        s: "(case folded of None \<Rightarrow> Inr st
           | Some result \<Rightarrow> Inr (emits [Li T0 (sint result), Addi SP SP (- 4), Sw T0 0 SP] st))
           = (Inr st' :: fault + codegen)"
        by (rule and_then_InrE)
      show ?thesis
        using s by (cases folded) (auto simp: frame_def emit_simps)
    next
      case nl: False
      define rv where "rv = constant_value st right"
      have eq: "optimizeConstantFolding bop left right st =
         (if bop = ADD \<and> rv = 0 then visit_expr left st
          else if bop = MUL \<and> rv = 1 then visit_expr left st
          else if bop = MUL \<and> rv = 0 then Inr (emits [Li T0 0, Addi SP SP (- 4), Sw T0 0 SP] st)
          else Inr st)"
        using opt r nl by (simp add: optimizeConstantFolding_unfold rv_def)
      have "optimizeConstantFolding bop left right st = visit_expr left st
          \<or> optimizeConstantFolding bop left right st =
              Inr (emits [Li T0 0, Addi SP SP (- 4), Sw T0 0 SP] st)
          \<or> optimizeConstantFolding bop left right st = Inr st"
        unfolding eq by simp
      then show ?thesis
      proof (elim disjE)
        assume "optimizeConstantFolding bop left right st = visit_expr left st"
        then have "visit_expr left st = Inr st'" using assms(1) by simp
        then show ?thesis by (rule IH)
      next
        assume "optimizeConstantFolding bop left right st =
              Inr (emits [Li T0 0, Addi SP SP (- 4), Sw T0 0 SP] st)"
        then have "st' = emits [Li T0 0, Addi SP SP (- 4), Sw T0 0 SP] st"
          using assms(1) by simp
        then show ?thesis by (simp add: frame_def emit_simps)
      next
        assume "optimizeConstantFolding bop left right st = Inr st"
        then have "st' = st" using assms(1) by simp
        then show ?thesis by simp
      qed
    qed
  qed
qed

lemma visit_args_frame:
  assumes "\<And>a s s'. a \<in> set args \<Longrightarrow> visit_expr a s = Inr s' \<Longrightarrow> frame s s'"
    and "visit_args args st = Inr st'"
  shows "frame st st'"
  using assms
proof (induction args arbitrary: st)
  case Nil
  then show ?case by simp
next
  case (Cons a args)
  from Cons.prems(2) obtain s1 where 1: "visit_expr a st = Inr s1" and 2: "visit_args args s1 = Inr st'"
    by (auto simp: and_then_eq_Inr)
  have "frame st s1"
    by (rule Cons.prems(1) [OF _ 1]) simp
  moreover have "frame s1 st'"
  proof (rule Cons.IH [OF _ 2])
    fix b s s' assume "b \<in> set args" "visit_expr b s = Inr s'"
    then show "frame s s'" using Cons.prems(1) [of b s s'] by simp
  qed
  ultimately show ?case by (rule frame_trans)
qed

lemma visit_expr_frame: "visit_expr e st = Inr st' \<Longrightarrow> frame st st'"
proof (induction e arbitrary: st st')
  case (NumberLiteral v)
  then show ?case by (auto simp: frame_def emit_simps)
next
  case (Identifier name)
  then show ?case by (auto simp: frame_def emit_simps split: option.splits)
next
  case (UnaryExpression uop operand)
  from UnaryExpression.prems obtain s1 where 1: "visit_expr operand st = Inr s1"
    and 2: "st' = emit (Sw T0 0 SP) (emits (unop_code uop) (emit (Lw T0 0 SP) s1))"
    by (auto simp: and_then_eq_Inr)
  have "frame st s1" using UnaryExpression.IH 1 by simp
  then show ?case unfolding 2 by (simp add: frame_def emit_simps)
next
  case (BinaryExpression bop left right)
  show ?case
  proof (cases "optimizationsEnabled st")
    case True
    then have "optimizeConstantFolding bop left right st = Inr st'"
      using BinaryExpression.prems by simp
    then show ?thesis
      using BinaryExpression.IH(1) by (rule optimize_frame)
  next
    case False
    then obtain s1 s2 where 1: "visit_expr left st = Inr s1" and 2: "visit_expr right s1 = Inr s2"
      and 3: "st' = emit (Sw T0 0 SP) (emits (op_code bop)
                 (emits [Lw T1 0 SP, Addi SP SP 4, Lw T0 0 SP] s2))"
      using BinaryExpression.prems by (auto simp: and_then_eq_Inr)
    have "frame st s2"
      using frame_trans [OF BinaryExpression.IH(1) [OF 1] BinaryExpression.IH(2) [OF 2]] .
    then show ?thesis unfolding 3 by (simp add: frame_def emit_simps)
  qed
next
  case (FunctionCall functionName arguments)
  from FunctionCall.prems obtain s1 where 1: "visit_args arguments st = Inr s1"
    and 2: "st' = emits [Call functionName, Addi SP SP (int (length arguments) * 4),
                   Addi SP SP (- 4), Sw A0 0 SP] s1"
    by (auto simp: and_then_eq_Inr)
  have "frame st s1"
    using FunctionCall.IH 1 by (rule visit_args_frame)
  then show ?case unfolding 2 by (simp add: frame_def emit_simps)
qed

lemma visit_expr_fields:
  assumes "visit_expr e st = Inr st'"
  shows "optimizationsEnabled st' = optimizationsEnabled st"
    "constantValues st' = constantValues st"
    "labelCounter st' = labelCounter st"
    "localVariables st' = localVariables st"
    "stackOffset st' = stackOffset st"
    "label_defs (output st') = label_defs (output st)"
  using visit_expr_frame [OF assms] by (simp_all add: frame_def)

subsection \<open>The control-flow visitors, unfolded\<close>

lemma visit_If:
  "visit_stmt (IfStatement c t e) st =
     and_then (visit_expr c (st\<lparr>labelCounter := labelCounter st + 2\<rparr>)) (\<lambda>sc.
     and_then (visit_stmt t
                 (emits [Lw T0 0 SP, Addi SP SP 4,
                         Beqz T0 (''else'' @ to_string (labelCounter st))] sc)) (\<lambda>sthen.
     and_then (case e of
                 Some s \<Rightarrow> visit_stmt s
                   (emitLabel (''else'' @ to_string (labelCounter st))
                      (emit (J (''endif'' @ to_string (labelCounter st + 1))) sthen))
               | None \<Rightarrow> Inr
                   (emitLabel (''else'' @ to_string (labelCounter st))
                      (emit (J (''endif'' @ to_string (labelCounter st + 1))) sthen)))
       (\<lambda>st6. Inr (emitLabel (''endif'' @ to_string (labelCounter st + 1)) st6))))"
  by (cases e) (simp_all add: newLabel_def Let_def add.commute)

lemma visit_While:
  "visit_stmt (WhileStatement c b) st =
     and_then (visit_expr c
                 (emitLabel (''loop'' @ to_string (labelCounter st))
                    (st\<lparr>labelCounter := labelCounter st + 2\<rparr>))) (\<lambda>sc.
     and_then (visit_stmt b
                 (emits [Lw T0 0 SP, Addi SP SP 4,
                         Beqz T0 (''endloop'' @ to_string (labelCounter st + 1))] sc)) (\<lambda>sbody.
       Inr (emitLabel (''endloop'' @ to_string (labelCounter st + 1))
              (emit (J (''loop'' @ to_string (labelCounter st))) sbody))))"
  by (simp add: newLabel_def Let_def add.commute)

lemma visit_If_E:
  assumes "visit_stmt (IfStatement c t e) st = Inr st'"
  obtains sc sthen s6 where
    "visit_expr c (st\<lparr>labelCounter := labelCounter st + 2\<rparr>) = Inr sc"
    "visit_stmt t (emits [Lw T0 0 SP, Addi SP SP 4,
        Beqz T0 (''else'' @ to_string (labelCounter st))] sc) = Inr sthen"
    "(case e of
        Some s \<Rightarrow> visit_stmt s
          (emitLabel (''else'' @ to_string (labelCounter st))
             (emit (J (''endif'' @ to_string (labelCounter st + 1))) sthen))
      | None \<Rightarrow> Inr
          (emitLabel (''else'' @ to_string (labelCounter st))
             (emit (J (''endif'' @ to_string (labelCounter st + 1))) sthen))) = Inr s6"
    "st' = emitLabel (''endif'' @ to_string (labelCounter st + 1)) s6"
proof -
  from assms [unfolded visit_If] obtain sc where 1:
    "visit_expr c (st\<lparr>labelCounter := labelCounter st + 2\<rparr>) = Inr sc"
    and r1: "and_then (visit_stmt t
                 (emits [Lw T0 0 SP, Addi SP SP 4,
                         Beqz T0 (''else'' @ to_string (labelCounter st))] sc)) (\<lambda>sthen.
     and_then (case e of
                 Some s \<Rightarrow> visit_stmt s
                   (emitLabel (''else'' @ to_string (labelCounter st))
                      (emit (J (''endif'' @ to_string (labelCounter st + 1))) sthen))
               | None \<Rightarrow> Inr
                   (emitLabel (''else'' @ to_string (labelCounter st))
                      (emit (J (''endif'' @ to_string (labelCounter st + 1))) sthen)))
       (\<lambda>st6. Inr (emitLabel (''endif'' @ to_string (labelCounter st + 1)) st6))) = Inr st'"
    by (rule and_then_InrE)
  from r1 obtain sthen where 2:
    "visit_stmt t (emits [Lw T0 0 SP, Addi SP SP 4,
        Beqz T0 (''else'' @ to_string (labelCounter st))] sc) = Inr sthen"
    and r2: "and_then (case e of
                 Some s \<Rightarrow> visit_stmt s
                   (emitLabel (''else'' @ to_string (labelCounter st))
                      (emit (J (''endif'' @ to_string (labelCounter st + 1))) sthen))
               | None \<Rightarrow> Inr
                   (emitLabel (''else'' @ to_string (labelCounter st))
                      (emit (J (''endif'' @ to_string (labelCounter st + 1))) sthen)))
       (\<lambda>st6. Inr (emitLabel (''endif'' @ to_string (labelCounter st + 1)) st6)) = Inr st'"
    by (rule and_then_InrE)
  from r2 obtain s6 where 3: "(case e of
                 Some s \<Rightarrow> visit_stmt s
                   (emitLabel (''else'' @ to_string (labelCounter st))
                      (emit (J (''endif'' @ to_string (labelCounter st + 1))) sthen))
               | None \<Rightarrow> Inr
                   (emitLabel (''else'' @ to_string (labelCounter st))
                      (emit (J (''endif'' @ to_string (labelCounter st + 1))) sthen))) = Inr s6"
    and 4: "Inr (emitLabel (''endif'' @ to_string (labelCounter st + 1)) s6) = (Inr st' :: fault + codegen)"
    by (rule and_then_InrE)
  from 4 have "st' = emitLabel (''endif'' @ to_string (labelCounter st + 1)) s6" by simp
  with 1 2 3 show thesis by (rule that)
qed

lemma visit_While_E:
  assumes "visit_stmt (WhileStatement c b) st = Inr st'"
  obtains sc sbody where
    "visit_expr c (emitLabel (''loop'' @ to_string (labelCounter st))
        (st\<lparr>labelCounter := labelCounter st + 2\<rparr>)) = Inr sc"
    "visit_stmt b (emits [Lw T0 0 SP, Addi SP SP 4,
        Beqz T0 (''endloop'' @ to_string (labelCounter st + 1))] sc) = Inr sbody"
    "st' = emitLabel (''endloop'' @ to_string (labelCounter st + 1))
              (emit (J (''loop'' @ to_string (labelCounter st))) sbody)"
proof -
  from assms [unfolded visit_While] obtain sc where 1:
    "visit_expr c (emitLabel (''loop'' @ to_string (labelCounter st))
        (st\<lparr>labelCounter := labelCounter st + 2\<rparr>)) = Inr sc"
    and r1: "and_then (visit_stmt b
                 (emits [Lw T0 0 SP, Addi SP SP 4,
                         Beqz T0 (''endloop'' @ to_string (labelCounter st + 1))] sc)) (\<lambda>sbody.
       Inr (emitLabel (''endloop'' @ to_string (labelCounter st + 1))
              (emit (J (''loop'' @ to_string (labelCounter st))) sbody))) = Inr st'"
    by (rule and_then_InrE)
  from r1 obtain sbody where 2:
    "visit_stmt b (emits [Lw T0 0 SP, Addi SP SP 4,
        Beqz T0 (''endloop'' @ to_string (labelCounter st + 1))] sc) = Inr sbody"
    and 3: "Inr (emitLabel (''endloop'' @ to_string (labelCounter st + 1))
              (emit (J (''loop'' @ to_string (labelCounter st))) sbody)) = (Inr st' :: fault + codegen)"
    by (rule and_then_InrE)
  from 3 have "st' = emitLabel (''endloop'' @ to_string (labelCounter st + 1))
              (emit (J (''loop'' @ to_string (labelCounter st))) sbody)" by simp
  with 1 2 show thesis by (rule that)
qed

subsection \<open>Statement lowering keeps the flag, the constants and never lowers the counter\<close>

lemma keeps_emits [simp]:
  "keeps st (emits is st') \<longleftrightarrow> keeps st st'"
  "keeps st (emit i st') \<longleftrightarrow> keeps st st'"
  "keeps st (emitLabel l st') \<longleftrightarrow> keeps st st'"
  "keeps st (generateEpilogue st') \<longleftrightarrow> keeps st st'"
  by (simp_all add: keeps_def emit_simps generateEpilogue_def)

lemma keeps_refl [simp]: "keeps st st"
  by (simp add: keeps_def)

lemma keeps_trans: "keeps a b \<Longrightarrow> keeps b c \<Longrightarrow> keeps a c"
  by (simp add: keeps_def)

lemma keeps_counter: "keeps st st' \<Longrightarrow> labelCounter st \<le> labelCounter st'"
  by (simp add: keeps_def)

lemma visit_expr_keeps: "visit_expr e st = Inr st' \<Longrightarrow> keeps st st'"
  using visit_expr_frame [of e st st'] by (simp add: frame_def keeps_def)

lemma visit_stmts_keeps:
  assumes "\<And>s st st'. s \<in> set ss \<Longrightarrow> visit_stmt s st = Inr st' \<Longrightarrow> keeps st st'"
    and "visit_stmts ss st = Inr st'"
  shows "keeps st st'"
  using assms
proof (induction ss arbitrary: st)
  case Nil
  then show ?case by simp
next
  case (Cons s ss)
  from Cons.prems(2) obtain s1 where 1: "visit_stmt s st = Inr s1"
    and 2: "visit_stmts ss s1 = Inr st'"
    by (auto elim: and_then_InrE)
  have "keeps st s1"
    by (rule Cons.prems(1) [OF _ 1]) simp
  moreover have "keeps s1 st'"
  proof (rule Cons.IH [OF _ 2])
    fix x a b assume "x \<in> set ss" "visit_stmt x a = Inr b"
    then show "keeps a b" using Cons.prems(1) [of x a b] by simp
  qed
  ultimately show ?case by (rule keeps_trans)
qed

lemma visit_stmt_keeps: "visit_stmt s st = Inr st' \<Longrightarrow> keeps st st'"
proof (induction s arbitrary: st st')
  case (VariableDeclaration name initializer)
  show ?case
  proof (cases initializer)
    case None
    then show ?thesis
      using VariableDeclaration by (auto simp: Let_def keeps_def emit_simps)
  next
    case (Some e)
    then obtain sv where 1: "visit_expr e st = Inr sv"
      and 2: "st' = (let st1 = emits [Lw T0 0 SP, Addi SP SP 4] sv;
              st2 = st1\<lparr>stackOffset := stackOffset st1 - 4\<rparr>;
              st3 = st2\<lparr>localVariables := (localVariables st2)(name \<mapsto> stackOffset st2)\<rparr>
          in emit (Sw T0 (stackOffset st3) FP) st3)"
      using VariableDeclaration by (auto simp: Let_def elim!: and_then_InrE)
    have "keeps st sv" using 1 by (rule visit_expr_keeps)
    then show ?thesis unfolding 2 by (simp add: Let_def keeps_def emit_simps)
  qed
next
  case (AssignmentStatement variable val)
  then obtain sv where 1: "visit_expr val st = Inr sv"
    and 2: "st' = (let st1 = emits [Lw T0 0 SP, Addi SP SP 4] sv
       in case localVariables st1 variable of
                 Some off \<Rightarrow> emit (Sw T0 off FP) st1
               | None \<Rightarrow> emits [La T1 variable, Sw T0 0 T1] st1)"
    by (auto simp: Let_def elim!: and_then_InrE)
  have "keeps st sv" using 1 by (rule visit_expr_keeps)
  then show ?case unfolding 2 by (simp add: Let_def keeps_def emit_simps split: option.splits)
next
  case (Block statements)
  then show ?case
    using visit_stmts_keeps [of statements st st'] by simp
next
  case (IfStatement c t e)
  from IfStatement.prems obtain sc sthen s6 where
    1: "visit_expr c (st\<lparr>labelCounter := labelCounter st + 2\<rparr>) = Inr sc"
    and 2: "visit_stmt t (emits [Lw T0 0 SP, Addi SP SP 4,
        Beqz T0 (''else'' @ to_string (labelCounter st))] sc) = Inr sthen"
    and 3: "(case e of
        Some s \<Rightarrow> visit_stmt s
          (emitLabel (''else'' @ to_string (labelCounter st))
             (emit (J (''endif'' @ to_string (labelCounter st + 1))) sthen))
      | None \<Rightarrow> Inr
          (emitLabel (''else'' @ to_string (labelCounter st))
             (emit (J (''endif'' @ to_string (labelCounter st + 1))) sthen))) = Inr s6"
    and 4: "st' = emitLabel (''endif'' @ to_string (labelCounter st + 1)) s6"
    by (rule visit_If_E)
  have a: "keeps st sc"
    using visit_expr_keeps [OF 1] by (simp add: keeps_def)
  have b: "keeps sc sthen"
    using IfStatement.IH(1) [OF 2] by (simp add: keeps_def emit_simps)
  have c: "keeps sthen s6"
  proof (cases e)
    case None
    then show ?thesis using 3 by auto
  next
    case (Some s)
    define sj where "sj = emitLabel (''else'' @ to_string (labelCounter st))
             (emit (J (''endif'' @ to_string (labelCounter st + 1))) sthen)"
    have r: "visit_stmt s sj = Inr s6"
      using 3 Some by (simp add: sj_def)
    have "s \<in> set_option e" using Some by simp
    then have "keeps sj s6"
      using r by (rule IfStatement.IH(2))
    then show ?thesis
      by (simp add: sj_def keeps_def emit_simps)
  qed
  show ?case
    unfolding 4 using keeps_trans [OF keeps_trans [OF a b] c] by simp
next
  case (WhileStatement c b)
  from WhileStatement.prems obtain sc sbody where
    1: "visit_expr c (emitLabel (''loop'' @ to_string (labelCounter st))
        (st\<lparr>labelCounter := labelCounter st + 2\<rparr>)) = Inr sc"
    and 2: "visit_stmt b (emits [Lw T0 0 SP, Addi SP SP 4,
        Beqz T0 (''endloop'' @ to_string (labelCounter st + 1))] sc) = Inr sbody"
    and 3: "st' = emitLabel (''endloop'' @ to_string (labelCounter st + 1))
              (emit (J (''loop'' @ to_string (labelCounter st))) sbody)"
    by (rule visit_While_E)
  have a: "keeps st sc"
    using visit_expr_keeps [OF 1] by (simp add: keeps_def emit_simps)
  have b: "keeps sc sbody"
    using WhileStatement.IH [OF 2] by (simp add: keeps_def emit_simps)
  show ?case
    unfolding 3 using keeps_trans [OF a b] by simp
next
  case BreakStatement
  then show ?case by auto
next
  case ContinueStatement
  then show ?case by auto
next
  case (ReturnStatement val)
  show ?case
  proof (cases val)
    case None
    then show ?thesis using ReturnStatement by auto
  next
    case (Some e)
    then obtain sv where 1: "visit_expr e st = Inr sv"
      and 2: "st' = generateEpilogue (emits [Lw A0 0 SP, Addi SP SP 4] sv)"
      using ReturnStatement by (auto elim!: and_then_InrE)
    show ?thesis
      unfolding 2 using visit_expr_keeps [OF 1] by simp
  qed
next
  case (ExpressionStatement expression)
  then obtain sv where 1: "visit_expr expression st = Inr sv"
    and 2: "st' = emit (Addi SP SP 4) sv"
    by (auto elim!: and_then_InrE)
  show ?case
    unfolding 2 using visit_expr_keeps [OF 1] by simp
qed

lemma visit_FunctionDefinition_keeps:
  "visit_FunctionDefinition f st = Inr st' \<Longrightarrow> keeps st st'"
proof (cases f)
  case (FunctionDefinition name body)
  assume r: "visit_FunctionDefinition f st = Inr st'"
  define s1 where "s1 = generatePrologue name 8
    (st\<lparr>currentFunction := name, localVariables := Map.empty, stackOffset := 0\<rparr>)"
  from r obtain sbody where 1: "visit_stmt body s1 = Inr sbody"
    and 2: "st' = generateEpilogue sbody"
    unfolding FunctionDefinition s1_def by (auto simp: Let_def elim!: and_then_InrE)
  have "keeps st s1"
    by (simp add: s1_def generatePrologue_def keeps_def emit_simps)
  then have "keeps st sbody"
    using visit_stmt_keeps [OF 1] keeps_trans by blast
  then show ?thesis unfolding 2 by simp
qed

lemma visit_CompilationUnit_keeps:
  "visit_CompilationUnit fs st = Inr st' \<Longrightarrow> keeps st st'"
proof (induction fs arbitrary: st)
  case Nil
  then show ?case by simp
next
  case (Cons f fs)
  from Cons.prems obtain s1 where 1: "visit_FunctionDefinition f st = Inr s1"
    and 2: "visit_CompilationUnit fs s1 = Inr st'"
    by (auto elim: and_then_InrE)
  show ?case
    using keeps_trans [OF visit_FunctionDefinition_keeps [OF 1] Cons.IH [OF 2]] .
qed

subsection \<open>Labels issued by a lowering that completes\<close>

lemma issues_same:
  assumes "label_defs (output st') = label_defs (output st)" "labelCounter st' = labelCounter st"
  shows "issues st st'"
  unfolding issues_def using assms by (intro exI [of _ "[]"]) simp

lemma issues_trans:
  assumes c: "0 \<le> labelCounter a" and ab: "issues a b" and bc: "issues b c"
  shows "issues a c"
proof -
  from ab obtain L1 where 1: "label_defs (output b) = label_defs (output a) @ L1" "distinct L1"
    "set L1 \<subseteq> issued (labelCounter a) (labelCounter b)"
    "int (length L1) = labelCounter b - labelCounter a"
    unfolding issues_def by blast
  from bc obtain L2 where 2: "label_defs (output c) = label_defs (output b) @ L2" "distinct L2"
    "set L2 \<subseteq> issued (labelCounter b) (labelCounter c)"
    "int (length L2) = labelCounter c - labelCounter b"
    unfolding issues_def by blast
  have le: "labelCounter a \<le> labelCounter b" "labelCounter b \<le> labelCounter c"
    using 1(4) 2(4) by linarith+
  have "issued (labelCounter a) (labelCounter b) \<inter> issued (labelCounter b) (labelCounter c) = {}"
    using c by (intro issued_disjoint) simp_all
  then have dj: "set L1 \<inter> set L2 = {}"
    using 1(3) 2(3) by blast
  have "set L1 \<subseteq> issued (labelCounter a) (labelCounter c)"
    using 1(3) issued_mono [of "labelCounter a" "labelCounter a" "labelCounter b" "labelCounter c"] le
    by blast
  moreover have "set L2 \<subseteq> issued (labelCounter a) (labelCounter c)"
    using 2(3) issued_mono [of "labelCounter a" "labelCounter b" "labelCounter c" "labelCounter c"] le
    by blast
  ultimately show ?thesis
    unfolding issues_def using 1 2 dj
    by (intro exI [of _ "L1 @ L2"]) simp
qed

lemma issues_bracket:
  assumes c: "0 \<le> labelCounter st"
    and p: "p \<in> label_prefixes" and q: "q \<in> label_prefixes"
    and sa: "labelCounter sa = labelCounter st + 2" "label_defs (output sa) = label_defs (output st)"
    and ab: "issues sa sb"
    and sc: "labelCounter sc = labelCounter sb"
      "label_defs (output sc) = label_defs (output sb) @ [p @ to_string (labelCounter st)]"
    and cd: "issues sc sd"
    and se: "labelCounter se = labelCounter sd"
      "label_defs (output se) = label_defs (output sd) @ [q @ to_string (labelCounter st + 1)]"
  shows "issues st se"
proof -
  define k where "k = labelCounter st"
  define k1 where "k1 = labelCounter sb"
  define k2 where "k2 = labelCounter sd"
  from ab obtain A where A: "label_defs (output sb) = label_defs (output sa) @ A" "distinct A"
    "set A \<subseteq> issued (k + 2) k1" "int (length A) = k1 - (k + 2)"
    unfolding issues_def k_def k1_def sa(1) by blast
  from cd obtain B where B: "label_defs (output sd) = label_defs (output sc) @ B" "distinct B"
    "set B \<subseteq> issued k1 k2" "int (length B) = k2 - k1"
    unfolding issues_def k_def k1_def k2_def sc(1) by blast
  have le: "0 \<le> k" "k + 2 \<le> k1" "k1 \<le> k2"
    using c A(4) B(4) by (simp_all add: k_def)
  let ?x = "p @ to_string k" and ?y = "q @ to_string (k + 1)"
  have x: "?x \<in> issued k (k + 1)" and y: "?y \<in> issued (k + 1) (k + 2)"
    using p q by (simp_all add: issued_I)
  have d1: "issued k (k + 1) \<inter> issued (k + 1) (k + 2) = {}"
    and d2: "issued k (k + 1) \<inter> issued (k + 2) k1 = {}"
    and d3: "issued k (k + 1) \<inter> issued k1 k2 = {}"
    and d4: "issued (k + 1) (k + 2) \<inter> issued (k + 2) k1 = {}"
    and d5: "issued (k + 1) (k + 2) \<inter> issued k1 k2 = {}"
    and d6: "issued (k + 2) k1 \<inter> issued k1 k2 = {}"
    using le by (simp_all add: issued_disjoint)
  have m1: "issued k (k + 1) \<subseteq> issued k k2" and m2: "issued (k + 1) (k + 2) \<subseteq> issued k k2"
    and m3: "issued (k + 2) k1 \<subseteq> issued k k2" and m4: "issued k1 k2 \<subseteq> issued k k2"
    using le by (simp_all add: issued_mono)
  let ?L = "A @ [?x] @ B @ [?y]"
  have "label_defs (output se) = label_defs (output st) @ ?L"
    using A(1) B(1) sa(2) sc(2) se(2) by (simp add: k_def)
  moreover have "distinct ?L"
    using A(2,3) B(2,3) x y d1 d2 d3 d4 d5 d6 by auto
  moreover have "set ?L \<subseteq> issued k k2"
    using A(3) B(3) x y m1 m2 m3 m4 by auto
  moreover have "int (length ?L) = k2 - k"
    using A(4) B(4) by simp
  ultimately show ?thesis
    unfolding issues_def k_def [symmetric] se(1) k2_def [symmetric] by blast
qed

lemma visit_expr_labels:
  assumes "visit_expr e st = Inr st'"
  shows "labelCounter st' = labelCounter st" "label_defs (output st') = label_defs (output st)"
  using visit_expr_frame [OF assms] by (simp_all add: frame_def)

lemma visit_stmts_issues:
  assumes "\<And>s st st'. s \<in> set ss \<Longrightarrow> 0 \<le> labelCounter st \<Longrightarrow> visit_stmt s st = Inr st'
             \<Longrightarrow> issues st st'"
    and "0 \<le> labelCounter st"
    and "visit_stmts ss st = Inr st'"
  shows "issues st st'"
  using assms
proof (induction ss arbitrary: st)
  case Nil
  then show ?case by (simp add: issues_same)
next
  case (Cons s ss)
  from Cons.prems(3) obtain s1 where r1: "visit_stmt s st = Inr s1"
    and r2: "visit_stmts ss s1 = Inr st'"
    by (auto elim: and_then_InrE)
  have 1: "issues st s1"
    by (rule Cons.prems(1) [OF _ Cons.prems(2) r1]) simp
  have c: "0 \<le> labelCounter s1"
    using keeps_counter [OF visit_stmt_keeps [OF r1]] Cons.prems(2) by simp
  have 2: "issues s1 st'"
  proof (rule Cons.IH [OF _ c r2])
    fix x a b assume "x \<in> set ss" "0 \<le> labelCounter a" "visit_stmt x a = Inr b"
    then show "issues a b" using Cons.prems(1) [of x a b] by simp
  qed
  show ?case
    by (rule issues_trans [OF Cons.prems(2) 1 2])
qed

lemma visit_stmt_issues:
  "0 \<le> labelCounter st \<Longrightarrow> visit_stmt s st = Inr st' \<Longrightarrow> issues st st'"
proof (induction s arbitrary: st st')
  case (VariableDeclaration name initializer)
  show ?case
  proof (cases initializer)
    case None
    then show ?thesis
      using VariableDeclaration by (auto simp: Let_def emit_simps intro!: issues_same)
  next
    case (Some e)
    then obtain sv where 1: "visit_expr e st = Inr sv"
      and 2: "st' = (let st1 = emits [Lw T0 0 SP, Addi SP SP 4] sv;
              st2 = st1\<lparr>stackOffset := stackOffset st1 - 4\<rparr>;
              st3 = st2\<lparr>localVariables := (localVariables st2)(name \<mapsto> stackOffset st2)\<rparr>
          in emit (Sw T0 (stackOffset st3) FP) st3)"
      using VariableDeclaration by (auto simp: Let_def elim!: and_then_InrE)
    show ?thesis
      unfolding 2 using visit_expr_labels [OF 1]
      by (intro issues_same) (simp_all add: Let_def emit_simps)
  qed
next
  case (AssignmentStatement variable val)
  then obtain sv where 1: "visit_expr val st = Inr sv"
    and 2: "st' = (let st1 = emits [Lw T0 0 SP, Addi SP SP 4] sv
       in case localVariables st1 variable of
                 Some off \<Rightarrow> emit (Sw T0 off FP) st1
               | None \<Rightarrow> emits [La T1 variable, Sw T0 0 T1] st1)"
    by (auto simp: Let_def elim!: and_then_InrE)
  show ?case
    unfolding 2 using visit_expr_labels [OF 1]
    by (intro issues_same) (simp_all add: Let_def emit_simps split: option.splits)
next
  case (Block statements)
  then show ?case
    using visit_stmts_issues [of statements st st'] by simp
next
  case (IfStatement c t e)
  let ?else = "''else'' @ to_string (labelCounter st)"
  let ?end = "''endif'' @ to_string (labelCounter st + 1)"
  from IfStatement.prems(2) obtain sc sthen s6 where
    1: "visit_expr c (st\<lparr>labelCounter := labelCounter st + 2\<rparr>) = Inr sc"
    and 2: "visit_stmt t (emits [Lw T0 0 SP, Addi SP SP 4, Beqz T0 ?else] sc) = Inr sthen"
    and 3: "(case e of
        Some s \<Rightarrow> visit_stmt s (emitLabel ?else (emit (J ?end) sthen))
      | None \<Rightarrow> Inr (emitLabel ?else (emit (J ?end) sthen))) = Inr s6"
    and 4: "st' = emitLabel ?end s6"
    by (rule visit_If_E)
  define s3 where "s3 = emits [Lw T0 0 SP, Addi SP SP 4, Beqz T0 ?else] sc"
  define s5 where "s5 = emitLabel ?else (emit (J ?end) sthen)"
  have a: "labelCounter s3 = labelCounter st + 2" "label_defs (output s3) = label_defs (output st)"
    using visit_expr_labels [OF 1] by (simp_all add: s3_def emit_simps)
  have r2: "visit_stmt t s3 = Inr sthen" using 2 by (simp add: s3_def)
  have "0 \<le> labelCounter s3" using a IfStatement.prems by simp
  then have ab: "issues s3 sthen"
    using r2 by (rule IfStatement.IH(1))
  have b: "labelCounter s3 \<le> labelCounter sthen"
    by (rule keeps_counter [OF visit_stmt_keeps [OF r2]])
  have sc: "labelCounter s5 = labelCounter sthen"
    "label_defs (output s5) = label_defs (output sthen) @ [?else]"
    by (simp_all add: s5_def emit_simps)
  have c5: "0 \<le> labelCounter s5" using sc a b IfStatement.prems by simp
  have cd: "issues s5 s6"
  proof (cases e)
    case None
    then have "s6 = s5" using 3 by (simp add: s5_def)
    then show ?thesis by (simp add: issues_same)
  next
    case (Some s)
    then have r: "visit_stmt s s5 = Inr s6" using 3 by (simp add: s5_def)
    have "s \<in> set_option e" using Some by simp
    then show ?thesis
      using c5 r by (rule IfStatement.IH(2))
  qed
  have se: "labelCounter (emitLabel ?end s6) = labelCounter s6"
    "label_defs (output (emitLabel ?end s6)) = label_defs (output s6) @ [?end]"
    by (simp_all add: emit_simps)
  show ?case
    unfolding 4
    by (rule issues_bracket [OF IfStatement.prems(1) _ _ a ab sc cd se])
       (simp_all add: label_prefixes_def)
next
  case (WhileStatement c b)
  let ?loop = "''loop'' @ to_string (labelCounter st)"
  let ?end = "''endloop'' @ to_string (labelCounter st + 1)"
  from WhileStatement.prems(2) obtain sc sbody where
    1: "visit_expr c (emitLabel ?loop (st\<lparr>labelCounter := labelCounter st + 2\<rparr>)) = Inr sc"
    and 2: "visit_stmt b (emits [Lw T0 0 SP, Addi SP SP 4, Beqz T0 ?end] sc) = Inr sbody"
    and 3: "st' = emitLabel ?end (emit (J ?loop) sbody)"
    by (rule visit_While_E)
  define s2 where "s2 = st\<lparr>labelCounter := labelCounter st + 2\<rparr>"
  define s4 where "s4 = emits [Lw T0 0 SP, Addi SP SP 4, Beqz T0 ?end] sc"
  define s5 where "s5 = emit (J ?loop) sbody"
  have a: "labelCounter s2 = labelCounter st + 2" "label_defs (output s2) = label_defs (output st)"
    by (simp_all add: s2_def)
  have ab: "issues s2 s2"
    by (simp add: issues_same)
  have sc: "labelCounter s4 = labelCounter s2"
    "label_defs (output s4) = label_defs (output s2) @ [?loop]"
    using visit_expr_labels [OF 1] by (simp_all add: s4_def s2_def emit_simps)
  have r2: "visit_stmt b s4 = Inr sbody" using 2 by (simp add: s4_def)
  have "0 \<le> labelCounter s4" using sc a WhileStatement.prems by simp
  then have "issues s4 sbody"
    using r2 by (rule WhileStatement.IH)
  then have cd: "issues s4 s5"
    unfolding issues_def s5_def by (simp add: emit_simps)
  have se: "labelCounter (emitLabel ?end s5) = labelCounter s5"
    "label_defs (output (emitLabel ?end s5)) = label_defs (output s5) @ [?end]"
    by (simp_all add: emit_simps)
  show ?case
    unfolding 3 s5_def [symmetric]
    by (rule issues_bracket [OF WhileStatement.prems(1) _ _ a ab sc cd se])
       (simp_all add: label_prefixes_def)
next
  case BreakStatement
  then show ?case by (auto simp: emit_simps intro!: issues_same)
next
  case ContinueStatement
  then show ?case by (auto simp: emit_simps intro!: issues_same)
next
  case (ReturnStatement val)
  show ?case
  proof (cases val)
    case None
    then show ?thesis
      using ReturnStatement by (auto simp: emit_simps generateEpilogue_def intro!: issues_same)
  next
    case (Some e)
    then obtain sv where 1: "visit_expr e st = Inr sv"
      and 2: "st' = generateEpilogue (emits [Lw A0 0 SP, Addi SP SP 4] sv)"
      using ReturnStatement by (auto elim!: and_then_InrE)
    show ?thesis
      unfolding 2 using visit_expr_labels [OF 1]
      by (intro issues_same) (simp_all add: emit_simps generateEpilogue_def)
  qed
next
  case (ExpressionStatement expression)
  then obtain sv where 1: "visit_expr expression st = Inr sv"
    and 2: "st' = emit (Addi SP SP 4) sv"
    by (auto elim!: and_then_InrE)
  show ?case
    unfolding 2 using visit_expr_labels [OF 1]
    by (intro issues_same) (simp_all add: emit_simps)
qed

lemma visit_FunctionDefinition_issues:
  assumes "0 \<le> labelCounter st" and r: "visit_FunctionDefinition f st = Inr st'"
  shows "unit_issues [fname f] st st'"
proof (cases f)
  case (FunctionDefinition name body)
  define s1 where "s1 = generatePrologue name 8
    (st\<lparr>currentFunction := name, localVariables := Map.empty, stackOffset := 0\<rparr>)"
  from r obtain sbody where rb: "visit_stmt body s1 = Inr sbody"
    and eq: "st' = generateEpilogue sbody"
    unfolding FunctionDefinition s1_def by (auto simp: Let_def elim!: and_then_InrE)
  have 1: "labelCounter s1 = labelCounter st"
    "label_defs (output s1) = label_defs (output st) @ [name]"
    by (simp_all add: s1_def generatePrologue_def emit_simps)
  then have "issues s1 sbody"
    using assms(1) rb by (simp add: visit_stmt_issues)
  then obtain L where L: "label_defs (output sbody) = label_defs (output s1) @ L"
    "distinct L" "set L \<subseteq> issued (labelCounter s1) (labelCounter sbody)"
    "int (length L) = labelCounter sbody - labelCounter s1"
    unfolding issues_def by blast
  show ?thesis
    unfolding unit_issues_def eq
    using L 1 by (intro exI [of _ L]) (simp add: FunctionDefinition generateEpilogue_def emit_simps)
qed

lemma unit_issues_counter: "unit_issues ns st st' \<Longrightarrow> labelCounter st \<le> labelCounter st'"
  unfolding unit_issues_def by linarith

lemma unit_issues_trans:
  assumes c: "0 \<le> labelCounter a" and ab: "unit_issues ms a b" and bc: "unit_issues ns b c"
  shows "unit_issues (ms @ ns) a c"
proof -
  from ab obtain L1 where 1:
    "mset (label_defs (output b)) = mset (label_defs (output a)) + mset ms + mset L1" "distinct L1"
    "set L1 \<subseteq> issued (labelCounter a) (labelCounter b)"
    "int (length L1) = labelCounter b - labelCounter a"
    unfolding unit_issues_def by blast
  from bc obtain L2 where 2:
    "mset (label_defs (output c)) = mset (label_defs (output b)) + mset ns + mset L2" "distinct L2"
    "set L2 \<subseteq> issued (labelCounter b) (labelCounter c)"
    "int (length L2) = labelCounter c - labelCounter b"
    unfolding unit_issues_def by blast
  have le: "labelCounter a \<le> labelCounter b" "labelCounter b \<le> labelCounter c"
    using 1(4) 2(4) by linarith+
  have "issued (labelCounter a) (labelCounter b) \<inter> issued (labelCounter b) (labelCounter c) = {}"
    using c by (intro issued_disjoint) simp_all
  then have dj: "set L1 \<inter> set L2 = {}"
    using 1(3) 2(3) by blast
  have "set L1 \<subseteq> issued (labelCounter a) (labelCounter c)"
    using 1(3) issued_mono [of "labelCounter a" "labelCounter a" "labelCounter b" "labelCounter c"] le
    by blast
  moreover have "set L2 \<subseteq> issued (labelCounter a) (labelCounter c)"
    using 2(3) issued_mono [of "labelCounter a" "labelCounter b" "labelCounter c" "labelCounter c"] le
    by blast
  ultimately show ?thesis
    unfolding unit_issues_def using 1 2 dj
    by (intro exI [of _ "L1 @ L2"]) simp
qed

lemma visit_CompilationUnit_issues:
  "0 \<le> labelCounter st \<Longrightarrow> visit_CompilationUnit fs st = Inr st'
     \<Longrightarrow> unit_issues (map fname fs) st st'"
proof (induction fs arbitrary: st)
  case Nil
  then show ?case by (simp add: unit_issues_def)
next
  case (Cons f fs)
  from Cons.prems(2) obtain s1 where r1: "visit_FunctionDefinition f st = Inr s1"
    and r2: "visit_CompilationUnit fs s1 = Inr st'"
    by (auto elim: and_then_InrE)
  have 1: "unit_issues [fname f] st s1"
    using Cons.prems(1) r1 by (rule visit_FunctionDefinition_issues)
  then have "0 \<le> labelCounter s1"
    using unit_issues_counter Cons.prems(1) by fastforce
  then have 2: "unit_issues (map fname fs) s1 st'"
    using r2 by (rule Cons.IH)
  show ?case
    using unit_issues_trans [OF Cons.prems(1) 1 2] by simp
qed

lemma generate_run_issues:
  assumes "generate_run unit funcTable st = Inr st'"
  shows "\<exists>L. mset (label_defs (output st')) = mset (map fname unit) + mset L
     \<and> distinct L
     \<and> set L \<subseteq> issued 0 (labelCounter st')
     \<and> int (length L) = labelCounter st'"
proof -
  define s0 where "s0 = emits [Directive ''.data'', Directive ''.text'', Directive ''.global main'']
          (st\<lparr>output := [], functions := funcTable, stackOffset := 0, labelCounter := 0\<rparr>)"
  have 0: "labelCounter s0 = 0" "label_defs (output s0) = []"
    by (simp_all add: s0_def emit_simps)
  have r: "visit_CompilationUnit unit s0 = Inr st'"
    using assms by (simp add: generate_run_def s0_def Let_def)
  have "unit_issues (map fname unit) s0 st'"
    using 0 r by (simp add: visit_CompilationUnit_issues)
  then show ?thesis
    unfolding unit_issues_def 0 by simp
qed

subsection \<open>Stack adjustments of a lowering\<close>

text \<open>
  Where every binary expression emits code, the lowering completes, an expression adds
  one push to the adjustments and a statement 8 bytes for each \<^verbatim>\<open>return\<close>.
\<close>

lemma constant_cong:
  assumes "constantValues st' = constantValues st"
  shows "is_constant st' e = is_constant st e"
    and "constant_value st' e = constant_value st e"
  using assms by (cases e; simp)+

lemma folds_cong:
  assumes "constantValues st' = constantValues st"
  shows "folds st' e = folds st e"
proof (induction e)
  case (FunctionCall f args)
  then show ?case by (simp add: list_all_iff)
next
  case (BinaryExpression bop l r)
  then show ?case
    by (simp add: constant_cong [OF assms])
qed simp_all

lemma folds_stmt_cong:
  assumes "constantValues st' = constantValues st"
  shows "folds_stmt st' s = folds_stmt st s"
proof (induction s)
  case (Block ss)
  then show ?case by (simp add: list_all_iff)
next
  case (IfStatement c t e)
  then show ?case by (cases e) (simp_all add: folds_cong [OF assms])
qed (simp_all add: folds_cong [OF assms] split: option.splits)

lemma yields_value_E:
  assumes "yields_value r"
  obtains result where "r = Inr (Some result)"
  using assms by (cases r rule: yields_value.cases) simp_all

lemma optimize_sp:
  assumes opt: "optimizationsEnabled st"
    and f: "folds st (BinaryExpression bop left right)"
    and IH: "folds st left \<Longrightarrow>
      \<exists>s'. visit_expr left st = Inr s' \<and> sp_delta (output s') = sp_delta (output st) - 4"
  shows "\<exists>st'. optimizeConstantFolding bop left right st = Inr st'
           \<and> sp_delta (output st') = sp_delta (output st) - 4"
proof (cases "is_constant st right")
  case False
  then show ?thesis using f by simp
next
  case r: True
  show ?thesis
  proof (cases "is_constant st left")
    case True
    then have "yields_value (fold_switch bop (constant_value st left) (constant_value st right))"
      using f r by simp
    then obtain w where
      "fold_switch bop (constant_value st left) (constant_value st right) = Inr (Some w)"
      by (rule yields_value_E)
    then have "optimizeConstantFolding bop left right st =
        Inr (emits [Li T0 (sint w), Addi SP SP (- 4), Sw T0 0 SP] st)"
      using opt True r by (simp add: optimizeConstantFolding_unfold)
    then show ?thesis
      by (simp add: emit_simps)
  next
    case nl: False
    define rv where "rv = constant_value st right"
    have feq: "folds st (BinaryExpression bop left right) =
        (if bop = ADD \<and> rv = 0 then folds st left
         else if bop = MUL \<and> rv = 1 then folds st left
         else if bop = MUL \<and> rv = 0 then True else False)"
      using r nl by (simp add: Let_def rv_def)
    have rest: "if bop = ADD \<and> rv = 0 then folds st left
         else if bop = MUL \<and> rv = 1 then folds st left
         else if bop = MUL \<and> rv = 0 then True else False"
      using f unfolding feq .
    have eq: "optimizeConstantFolding bop left right st =
       (if bop = ADD \<and> rv = 0 then visit_expr left st
        else if bop = MUL \<and> rv = 1 then visit_expr left st
        else if bop = MUL \<and> rv = 0 then Inr (emits [Li T0 0, Addi SP SP (- 4), Sw T0 0 SP] st)
        else Inr st)"
      using opt r nl by (simp add: optimizeConstantFolding_unfold rv_def)
    have "(folds st left \<and> optimizeConstantFolding bop left right st = visit_expr left st)
        \<or> optimizeConstantFolding bop left right st =
            Inr (emits [Li T0 0, Addi SP SP (- 4), Sw T0 0 SP] st)"
      unfolding eq using rest
      by (cases "bop = ADD"; cases "bop = MUL"; cases "rv = 0"; cases "rv = 1") simp_all
    then show ?thesis
    proof (elim disjE conjE)
      assume "folds st left"
        and e: "optimizeConstantFolding bop left right st = visit_expr left st"
      then show ?thesis using IH by simp
    next
      assume "optimizeConstantFolding bop left right st =
            Inr (emits [Li T0 0, Addi SP SP (- 4), Sw T0 0 SP] st)"
      then show ?thesis by (simp add: emit_simps)
    qed
  qed
qed

lemma visit_args_sp:
  assumes "\<And>a st. a \<in> set args \<Longrightarrow> (optimizationsEnabled st \<longrightarrow> folds st a) \<Longrightarrow>
              \<exists>s'. visit_expr a st = Inr s' \<and> sp_delta (output s') = sp_delta (output st) - 4"
    and "optimizationsEnabled st \<longrightarrow> list_all (folds st) args"
  shows "\<exists>st'. visit_args args st = Inr st'
           \<and> sp_delta (output st') = sp_delta (output st) - 4 * int (length args)"
  using assms
proof (induction args arbitrary: st)
  case Nil
  show ?case by simp
next
  case (Cons a args)
  have "optimizationsEnabled st \<longrightarrow> folds st a"
    using Cons.prems(2) by simp
  then have "\<exists>s'. visit_expr a st = Inr s' \<and> sp_delta (output s') = sp_delta (output st) - 4"
    by (intro Cons.prems(1)) simp
  then obtain s1 where r1: "visit_expr a st = Inr s1"
    and 1: "sp_delta (output s1) = sp_delta (output st) - 4"
    by blast
  have c: "constantValues s1 = constantValues st" "optimizationsEnabled s1 = optimizationsEnabled st"
    using visit_expr_frame [OF r1] by (simp_all add: frame_def)
  have "optimizationsEnabled s1 \<longrightarrow> list_all (folds s1) args"
    using Cons.prems(2) c by (simp add: list_all_iff folds_cong [OF c(1)])
  then have "\<exists>st'. visit_args args s1 = Inr st'
           \<and> sp_delta (output st') = sp_delta (output s1) - 4 * int (length args)"
  proof (rule Cons.IH [rotated])
    fix x s assume "x \<in> set args" "optimizationsEnabled s \<longrightarrow> folds s x"
    then show "\<exists>s'. visit_expr x s = Inr s' \<and> sp_delta (output s') = sp_delta (output s) - 4"
      using Cons.prems(1) [of x s] by simp
  qed
  then obtain s2 where r2: "visit_args args s1 = Inr s2"
    and 2: "sp_delta (output s2) = sp_delta (output s1) - 4 * int (length args)"
    by blast
  show ?case
    using r1 r2 1 2 by simp
qed

lemma visit_expr_sp:
  "(optimizationsEnabled st \<longrightarrow> folds st e) \<Longrightarrow>
     \<exists>st'. visit_expr e st = Inr st' \<and> sp_delta (output st') = sp_delta (output st) - 4"
proof (induction e arbitrary: st)
  case (NumberLiteral v)
  show ?case by (simp add: emit_simps)
next
  case (Identifier name)
  show ?case by (simp add: emit_simps split: option.splits)
next
  case (UnaryExpression uop operand)
  have "optimizationsEnabled st \<longrightarrow> folds st operand"
    using UnaryExpression.prems by simp
  then obtain s1 where "visit_expr operand st = Inr s1"
    "sp_delta (output s1) = sp_delta (output st) - 4"
    using UnaryExpression.IH by blast
  then show ?case by (simp add: emit_simps)
next
  case (BinaryExpression bop left right)
  show ?case
  proof (cases "optimizationsEnabled st")
    case True
    then have f: "folds st (BinaryExpression bop left right)"
      using BinaryExpression.prems by blast
    have "\<exists>st'. optimizeConstantFolding bop left right st = Inr st'
           \<and> sp_delta (output st') = sp_delta (output st) - 4"
      using True f
    proof (rule optimize_sp)
      assume "folds st left"
      then show "\<exists>s'. visit_expr left st = Inr s' \<and> sp_delta (output s') = sp_delta (output st) - 4"
        by (intro BinaryExpression.IH(1)) simp
    qed
    then show ?thesis using True by simp
  next
    case False
    then obtain s1 where r1: "visit_expr left st = Inr s1"
      and 1: "sp_delta (output s1) = sp_delta (output st) - 4"
      using BinaryExpression.IH(1) [of st] by blast
    have "\<not> optimizationsEnabled s1"
      using False visit_expr_frame [OF r1] by (simp add: frame_def)
    then obtain s2 where r2: "visit_expr right s1 = Inr s2"
      and 2: "sp_delta (output s2) = sp_delta (output s1) - 4"
      using BinaryExpression.IH(2) [of s1] by blast
    show ?thesis
      using False r1 r2 1 2 by (simp add: emit_simps)
  qed
next
  case (FunctionCall functionName arguments)
  have "\<exists>st'. visit_args arguments st = Inr st'
           \<and> sp_delta (output st') = sp_delta (output st) - 4 * int (length arguments)"
  proof (rule visit_args_sp)
    fix a s assume "a \<in> set arguments" "optimizationsEnabled s \<longrightarrow> folds s a"
    then show "\<exists>s'. visit_expr a s = Inr s' \<and> sp_delta (output s') = sp_delta (output s) - 4"
      by (rule FunctionCall.IH)
  next
    show "optimizationsEnabled st \<longrightarrow> list_all (folds st) arguments"
      using FunctionCall.prems by simp
  qed
  then obtain s1 where "visit_args arguments st = Inr s1"
    "sp_delta (output s1) = sp_delta (output st) - 4 * int (length arguments)"
    by blast
  then show ?case by (simp add: emit_simps)
qed

lemma folds_stmt_transfer:
  assumes "keeps st st'"
  shows "(optimizationsEnabled st' \<longrightarrow> folds_stmt st' s) \<longleftrightarrow>
         (optimizationsEnabled st \<longrightarrow> folds_stmt st s)"
    and "(optimizationsEnabled st' \<longrightarrow> folds st' e) \<longleftrightarrow>
         (optimizationsEnabled st \<longrightarrow> folds st e)"
  using assms folds_stmt_cong [of st' st s] folds_cong [of st' st e]
  by (simp_all add: keeps_def)

lemma visit_stmts_sp:
  assumes "\<And>s st. s \<in> set ss \<Longrightarrow> (optimizationsEnabled st \<longrightarrow> folds_stmt st s) \<Longrightarrow>
      \<exists>s'. visit_stmt s st = Inr s'
         \<and> sp_delta (output s') = sp_delta (output st) + 8 * int (returns s)"
    and "optimizationsEnabled st \<longrightarrow> list_all (folds_stmt st) ss"
  shows "\<exists>st'. visit_stmts ss st = Inr st'
     \<and> sp_delta (output st') = sp_delta (output st) + 8 * int (sum_list (map returns ss))"
  using assms
proof (induction ss arbitrary: st)
  case Nil
  show ?case by simp
next
  case (Cons s ss)
  have "optimizationsEnabled st \<longrightarrow> folds_stmt st s"
    using Cons.prems(2) by simp
  then have "\<exists>s'. visit_stmt s st = Inr s'
         \<and> sp_delta (output s') = sp_delta (output st) + 8 * int (returns s)"
    by (intro Cons.prems(1)) simp
  then obtain s1 where r1: "visit_stmt s st = Inr s1"
    and 1: "sp_delta (output s1) = sp_delta (output st) + 8 * int (returns s)"
    by blast
  have c: "constantValues s1 = constantValues st" "optimizationsEnabled s1 = optimizationsEnabled st"
    using visit_stmt_keeps [OF r1] by (simp_all add: keeps_def)
  have "optimizationsEnabled s1 \<longrightarrow> list_all (folds_stmt s1) ss"
    using Cons.prems(2) c by (simp add: list_all_iff folds_stmt_cong [OF c(1)])
  then have "\<exists>st'. visit_stmts ss s1 = Inr st'
     \<and> sp_delta (output st') = sp_delta (output s1) + 8 * int (sum_list (map returns ss))"
  proof (rule Cons.IH [rotated])
    fix x s assume "x \<in> set ss" "optimizationsEnabled s \<longrightarrow> folds_stmt s x"
    then show "\<exists>s'. visit_stmt x s = Inr s'
         \<and> sp_delta (output s') = sp_delta (output s) + 8 * int (returns x)"
      using Cons.prems(1) [of x s] by simp
  qed
  then obtain s2 where r2: "visit_stmts ss s1 = Inr s2"
    and 2: "sp_delta (output s2) = sp_delta (output s1) + 8 * int (sum_list (map returns ss))"
    by blast
  show ?case
    using r1 r2 1 2 by simp
qed

lemma visit_stmt_sp:
  "(optimizationsEnabled st \<longrightarrow> folds_stmt st s) \<Longrightarrow>
     \<exists>st'. visit_stmt s st = Inr st'
       \<and> sp_delta (output st') = sp_delta (output st) + 8 * int (returns s)"
proof (induction s arbitrary: st)
  case (VariableDeclaration name initializer)
  show ?case
  proof (cases initializer)
    case None
    then show ?thesis by (simp add: emit_simps Let_def)
  next
    case (Some e)
    then have "optimizationsEnabled st \<longrightarrow> folds st e"
      using VariableDeclaration.prems by simp
    then obtain sv where "visit_expr e st = Inr sv"
      "sp_delta (output sv) = sp_delta (output st) - 4"
      using visit_expr_sp by blast
    then show ?thesis using Some by (simp add: emit_simps Let_def)
  qed
next
  case (AssignmentStatement variable val)
  then have "optimizationsEnabled st \<longrightarrow> folds st val"
    by simp
  then obtain sv where "visit_expr val st = Inr sv"
    "sp_delta (output sv) = sp_delta (output st) - 4"
    using visit_expr_sp by blast
  then show ?case
    by (simp add: emit_simps Let_def split: option.splits)
next
  case (Block statements)
  have "\<exists>st'. visit_stmts statements st = Inr st'
     \<and> sp_delta (output st') = sp_delta (output st) + 8 * int (sum_list (map returns statements))"
  proof (rule visit_stmts_sp)
    fix x s assume "x \<in> set statements" "optimizationsEnabled s \<longrightarrow> folds_stmt s x"
    then show "\<exists>s'. visit_stmt x s = Inr s'
         \<and> sp_delta (output s') = sp_delta (output s) + 8 * int (returns x)"
      by (rule Block.IH)
  next
    show "optimizationsEnabled st \<longrightarrow> list_all (folds_stmt st) statements"
      using Block.prems by simp
  qed
  then show ?case by simp
next
  case (IfStatement c t e)
  let ?else = "''else'' @ to_string (labelCounter st)"
  let ?end = "''endif'' @ to_string (labelCounter st + 1)"
  define s2 where "s2 = st\<lparr>labelCounter := labelCounter st + 2\<rparr>"
  have k2: "keeps st s2" by (simp add: s2_def keeps_def)
  have "optimizationsEnabled s2 \<longrightarrow> folds s2 c"
    using IfStatement.prems folds_stmt_transfer(2) [OF k2] by simp
  then obtain sc where rc: "visit_expr c s2 = Inr sc"
    and c: "sp_delta (output sc) = sp_delta (output s2) - 4"
    using visit_expr_sp by blast
  define s3 where "s3 = emits [Lw T0 0 SP, Addi SP SP 4, Beqz T0 ?else] sc"
  have k3: "keeps st s3"
    using keeps_trans [OF k2 visit_expr_keeps [OF rc]] by (simp add: s3_def)
  have 3: "sp_delta (output s3) = sp_delta (output st)"
    using c by (simp add: s3_def s2_def emit_simps)
  have "optimizationsEnabled s3 \<longrightarrow> folds_stmt s3 t"
    using IfStatement.prems folds_stmt_transfer(1) [OF k3] by simp
  then obtain s4 where r4: "visit_stmt t s3 = Inr s4"
    and 4: "sp_delta (output s4) = sp_delta (output s3) + 8 * int (returns t)"
    using IfStatement.IH(1) by blast
  define s5 where "s5 = emitLabel ?else (emit (J ?end) s4)"
  have k5: "keeps st s5"
    using keeps_trans [OF k3 visit_stmt_keeps [OF r4]] by (simp add: s5_def)
  have 5: "sp_delta (output s5) = sp_delta (output s4)"
    by (simp add: s5_def emit_simps)
  have "\<exists>s6. (case e of Some s \<Rightarrow> visit_stmt s s5 | None \<Rightarrow> Inr s5) = Inr s6
      \<and> sp_delta (output s6) = sp_delta (output s5) +
          8 * int (case e of Some s \<Rightarrow> returns s | None \<Rightarrow> 0)"
  proof (cases e)
    case None
    then show ?thesis by simp
  next
    case (Some s)
    then have "optimizationsEnabled s5 \<longrightarrow> folds_stmt s5 s"
      using IfStatement.prems folds_stmt_transfer(1) [OF k5] by simp
    moreover have "s \<in> set_option e" using Some by simp
    ultimately have "\<exists>s'. visit_stmt s s5 = Inr s'
        \<and> sp_delta (output s') = sp_delta (output s5) + 8 * int (returns s)"
      using IfStatement.IH(2) by blast
    then show ?thesis using Some by simp
  qed
  then obtain s6 where r6: "(case e of Some s \<Rightarrow> visit_stmt s s5 | None \<Rightarrow> Inr s5) = Inr s6"
    and 6: "sp_delta (output s6) = sp_delta (output s5) +
          8 * int (case e of Some s \<Rightarrow> returns s | None \<Rightarrow> 0)"
    by blast
  have eq: "visit_stmt (IfStatement c t e) st = Inr (emitLabel ?end s6)"
    unfolding visit_If
    using rc [unfolded s2_def] r4 [unfolded s3_def] r6 [unfolded s5_def] by simp
  show ?case
    unfolding eq using 3 4 5 6 by (cases e) (simp_all add: emit_simps)
next
  case (WhileStatement c b)
  let ?loop = "''loop'' @ to_string (labelCounter st)"
  let ?end = "''endloop'' @ to_string (labelCounter st + 1)"
  define s3 where "s3 = emitLabel ?loop (st\<lparr>labelCounter := labelCounter st + 2\<rparr>)"
  have k3: "keeps st s3" by (simp add: s3_def keeps_def emit_simps)
  have "optimizationsEnabled s3 \<longrightarrow> folds s3 c"
    using WhileStatement.prems folds_stmt_transfer(2) [OF k3] by simp
  then obtain sc where rc: "visit_expr c s3 = Inr sc"
    and c: "sp_delta (output sc) = sp_delta (output s3) - 4"
    using visit_expr_sp by blast
  define s4 where "s4 = emits [Lw T0 0 SP, Addi SP SP 4, Beqz T0 ?end] sc"
  have k4: "keeps st s4"
    using keeps_trans [OF k3 visit_expr_keeps [OF rc]] by (simp add: s4_def)
  have 4: "sp_delta (output s4) = sp_delta (output st)"
    using c by (simp add: s4_def s3_def emit_simps)
  have "optimizationsEnabled s4 \<longrightarrow> folds_stmt s4 b"
    using WhileStatement.prems folds_stmt_transfer(1) [OF k4] by simp
  then obtain sb where rb: "visit_stmt b s4 = Inr sb"
    and 5: "sp_delta (output sb) = sp_delta (output s4) + 8 * int (returns b)"
    using WhileStatement.IH by blast
  have eq: "visit_stmt (WhileStatement c b) st = Inr (emitLabel ?end (emit (J ?loop) sb))"
    unfolding visit_While
    using rc [unfolded s3_def] rb [unfolded s4_def] by simp
  show ?case
    unfolding eq using 4 5 by (simp add: emit_simps)
next
  case BreakStatement
  show ?case by (simp add: emit_simps)
next
  case ContinueStatement
  show ?case by (simp add: emit_simps)
next
  case (ReturnStatement val)
  show ?case
  proof (cases val)
    case None
    then show ?thesis by (simp add: emit_simps generateEpilogue_def)
  next
    case (Some e)
    then have "optimizationsEnabled st \<longrightarrow> folds st e"
      using ReturnStatement.prems by simp
    then obtain sv where "visit_expr e st = Inr sv"
      "sp_delta (output sv) = sp_delta (output st) - 4"
      using visit_expr_sp by blast
    then show ?thesis using Some by (simp add: emit_simps generateEpilogue_def)
  qed
next
  case (ExpressionStatement expression)
  then have "optimizationsEnabled st \<longrightarrow> folds st expression"
    by simp
  then obtain sv where "visit_expr expression st = Inr sv"
    "sp_delta (output sv) = sp_delta (output st) - 4"
    using visit_expr_sp by blast
  then show ?case
    by (simp add: emit_simps)
qed

subsection \<open>Logical operators\<close>

lemma visit_expr_completes:
  assumes "\<not> optimizationsEnabled st"
  obtains st' where "visit_expr e st = Inr st'" "\<not> optimizationsEnabled st'"
proof -
  from assms obtain st' where r: "visit_expr e st = Inr st'"
    using visit_expr_sp [of st e] by blast
  then have "\<not> optimizationsEnabled st'"
    using visit_expr_frame [OF r] assms by (simp add: frame_def)
  with r show ?thesis by (rule that)
qed

lemma exec_literal_and:
  "\<exists>s' m'. visit_expr (BinaryExpression AND (NumberLiteral a) (NumberLiteral b))
             (st\<lparr>output := [], optimizationsEnabled := False\<rparr>) = Inr s'
        \<and> exec (output s') m = Some m'
        \<and> regs m' SP = regs m SP - 4
        \<and> mem m' (regs m' SP) = and a b"
  by (simp add: emit_simps set_reg_def)

text \<open>
  C9.  On the non-folded path (optimizations disabled) a logical \<open>and\<close> is lowered as:
  left operand, right operand (both always lowered, no branch in between), pop both,
  one bitwise \<^verbatim>\<open>and\<close> on the two words, store; \<open>or\<close> likewise with one bitwise
  \<^verbatim>\<open>or\<close>; the lowering completes.  The operands are not normalized to 0/1: run on
  the target, the code for \<open>1 and 2\<close> leaves 0 on top of the stack, though both
  operands are nonzero.
\<close>

theorem logical_and_or_bitwise:
  assumes "\<not> optimizationsEnabled st"
  shows "(\<exists>s1 s2. visit_expr left st = Inr s1 \<and> visit_expr right s1 = Inr s2
            \<and> visit_expr (BinaryExpression AND left right) st =
                Inr (emits [Lw T1 0 SP, Addi SP SP 4, Lw T0 0 SP, And T0 T0 T1, Sw T0 0 SP] s2)
            \<and> visit_expr (BinaryExpression OR left right) st =
                Inr (emits [Lw T1 0 SP, Addi SP SP 4, Lw T0 0 SP, Or T0 T0 T1, Sw T0 0 SP] s2))
       \<and> (\<exists>s' m'. visit_expr (BinaryExpression AND (NumberLiteral 1) (NumberLiteral 2))
                   (st\<lparr>output := []\<rparr>) = Inr s'
             \<and> exec (output s') m = Some m'
             \<and> regs m' SP = regs m SP - 4
             \<and> mem m' (regs m' SP) = 0)"
proof (intro conjI)
  obtain s1 where 1: "visit_expr left st = Inr s1" and f1: "\<not> optimizationsEnabled s1"
    using assms by (rule visit_expr_completes)
  obtain s2 where 2: "visit_expr right s1 = Inr s2"
    using f1 by (rule visit_expr_completes)
  show "\<exists>s1 s2. visit_expr left st = Inr s1 \<and> visit_expr right s1 = Inr s2
            \<and> visit_expr (BinaryExpression AND left right) st =
                Inr (emits [Lw T1 0 SP, Addi SP SP 4, Lw T0 0 SP, And T0 T0 T1, Sw T0 0 SP] s2)
            \<and> visit_expr (BinaryExpression OR left right) st =
                Inr (emits [Lw T1 0 SP, Addi SP SP 4, Lw T0 0 SP, Or T0 T0 T1, Sw T0 0 SP] s2)"
    using assms 1 2 by (simp add: emit_simps)
  have "st\<lparr>output := []\<rparr> = st\<lparr>output := [], optimizationsEnabled := False\<rparr>"
    using assms by simp
  then show "\<exists>s' m'. visit_expr (BinaryExpression AND (NumberLiteral 1) (NumberLiteral 2))
                   (st\<lparr>output := []\<rparr>) = Inr s'
             \<and> exec (output s') m = Some m'
             \<and> regs m' SP = regs m SP - 4
             \<and> mem m' (regs m' SP) = 0"
    using exec_literal_and [of 1 2 st m] by simp
qed

theorem logical_and_or_bitwise_witness:
  "visit_expr (BinaryExpression AND (NumberLiteral 1) (NumberLiteral 2))
      (initial False Map.empty) =
     Inr ((initial False Map.empty)\<lparr>output :=
       [Li T0 1, Addi SP SP (- 4), Sw T0 0 SP, Li T0 2, Addi SP SP (- 4), Sw T0 0 SP,
        Lw T1 0 SP, Addi SP SP 4, Lw T0 0 SP, And T0 T0 T1, Sw T0 0 SP]\<rparr>)
   \<and> visit_expr (BinaryExpression OR (NumberLiteral 1) (NumberLiteral 2))
      (initial False Map.empty) =
     Inr ((initial False Map.empty)\<lparr>output :=
       [Li T0 1, Addi SP SP (- 4), Sw T0 0 SP, Li T0 2, Addi SP SP (- 4), Sw T0 0 SP,
        Lw T1 0 SP, Addi SP SP 4, Lw T0 0 SP, Or T0 T0 T1, Sw T0 0 SP]\<rparr>)"
  using logical_and_or_bitwise [of "initial False Map.empty" "NumberLiteral 1" "NumberLiteral 2"]
  by (simp add: initial_def emit_simps)

subsection \<open>Stack balance of statements\<close>

text \<open>
  C3, as amended.  For every statement lowered with optimizations disabled, and with
  optimizations enabled for every statement whose binary expressions all emit code
  (\<open>folds_stmt\<close>: each is a fold that neither returns early nor traps, or one of the
  three simplifications), the lowering completes and the stack-pointer adjustments of
  the emitted code sum to 8 bytes for each \<^verbatim>\<open>return\<close> statement in it (the frame
  release in the epilogue that a \<^verbatim>\<open>return\<close> emits), hence to zero for a statement
  without \<^verbatim>\<open>return\<close>.  An expression statement is one instance: the pop cancels
  the word its expression pushed.
\<close>

theorem statement_stack_balance:
  assumes "optimizationsEnabled st \<longrightarrow> folds_stmt st s"
  shows "\<exists>st'. visit_stmt s st = Inr st'
           \<and> sp_delta (output st') = sp_delta (output st) + 8 * int (returns s)"
  using assms by (rule visit_stmt_sp)

theorem statement_stack_balance_witness:
  "(\<exists>st'. visit_stmt
      (Block [VariableDeclaration ''x'' (Some (BinaryExpression ADD (NumberLiteral 1) (NumberLiteral 2))),
              ExpressionStatement (FunctionCall ''f'' [Identifier ''x'', NumberLiteral 3]),
              ReturnStatement (Some (BinaryExpression MUL (Identifier ''x'') (NumberLiteral 1)))])
      (initial True Map.empty) = Inr st' \<and> sp_delta (output st') = 8)
   \<and> (\<exists>st'. visit_stmt
      (WhileStatement (BinaryExpression LT (Identifier ''i'') (NumberLiteral 3))
         (Block [IfStatement (BinaryExpression EQ (Identifier ''i'') (NumberLiteral 1))
                   BreakStatement None,
                 AssignmentStatement ''i'' (BinaryExpression ADD (Identifier ''i'') (NumberLiteral 1))]))
      (initial False Map.empty) = Inr st' \<and> sp_delta (output st') = 0)"
  using statement_stack_balance [of "initial True Map.empty"
      "Block [VariableDeclaration ''x'' (Some (BinaryExpression ADD (NumberLiteral 1) (NumberLiteral 2))),
              ExpressionStatement (FunctionCall ''f'' [Identifier ''x'', NumberLiteral 3]),
              ReturnStatement (Some (BinaryExpression MUL (Identifier ''x'') (NumberLiteral 1)))]"]
    statement_stack_balance [of "initial False Map.empty"
      "WhileStatement (BinaryExpression LT (Identifier ''i'') (NumberLiteral 3))
         (Block [IfStatement (BinaryExpression EQ (Identifier ''i'') (NumberLiteral 1))
                   BreakStatement None,
                 AssignmentStatement ''i'' (BinaryExpression ADD (Identifier ''i'') (NumberLiteral 1))])"]
  by (simp add: initial_def)

text \<open>
  As claimed for every statement and both settings it fails: with optimizations
  enabled the expression statement \<open>1 < 2;\<close> emits only the pop (net 4 bytes); a
  \<^verbatim>\<open>return\<close> adds the 8 bytes of its epilogue; and with optimizations enabled the
  expression statement dividing the least \<^verbatim>\<open>int\<close> by \<open>- 1\<close> has no lowering at
  all, the fold traps in the generator.
\<close>

theorem statement_stack_imbalance:
  "(\<exists>st'. visit_stmt
      (ExpressionStatement (BinaryExpression LT (NumberLiteral 1) (NumberLiteral 2)))
      (initial True Map.empty) = Inr st' \<and> sp_delta (output st') = 4)
   \<and> (\<exists>st'. visit_stmt (ReturnStatement None) (initial False Map.empty) = Inr st'
          \<and> sp_delta (output st') = 8)
   \<and> visit_stmt
      (ExpressionStatement
         (BinaryExpression DIV (NumberLiteral (- 2147483648)) (NumberLiteral (- 1))))
      (initial True Map.empty) = Inl ArithmeticTrap"
  by (simp add: initial_def emit_simps generateEpilogue_def optimizeConstantFolding_unfold
      c_div_def)

subsection \<open>Labels of a run\<close>

lemma visit_FunctionDefinition_completes:
  assumes "optimizationsEnabled st \<longrightarrow> folds_stmt st (fbody f)"
  shows "\<exists>st'. visit_FunctionDefinition f st = Inr st'"
proof (cases f)
  case (FunctionDefinition name body)
  define s1 where "s1 = generatePrologue name 8
    (st\<lparr>currentFunction := name, localVariables := Map.empty, stackOffset := 0\<rparr>)"
  have "keeps st s1"
    by (simp add: s1_def generatePrologue_def keeps_def emit_simps)
  then have "optimizationsEnabled s1 \<longrightarrow> folds_stmt s1 body"
    using assms folds_stmt_transfer(1) [of st s1 body] by (simp add: FunctionDefinition)
  then obtain sbody where "visit_stmt body s1 = Inr sbody"
    using visit_stmt_sp by blast
  then show ?thesis
    by (simp add: FunctionDefinition s1_def [symmetric])
qed

lemma visit_CompilationUnit_completes:
  "(optimizationsEnabled st \<longrightarrow> list_all (\<lambda>f. folds_stmt st (fbody f)) fs)
     \<Longrightarrow> \<exists>st'. visit_CompilationUnit fs st = Inr st'"
proof (induction fs arbitrary: st)
  case Nil
  show ?case by simp
next
  case (Cons f fs)
  have "optimizationsEnabled st \<longrightarrow> folds_stmt st (fbody f)"
    using Cons.prems by simp
  then obtain s1 where r1: "visit_FunctionDefinition f st = Inr s1"
    using visit_FunctionDefinition_completes by blast
  have c: "constantValues s1 = constantValues st" "optimizationsEnabled s1 = optimizationsEnabled st"
    using visit_FunctionDefinition_keeps [OF r1] by (simp_all add: keeps_def)
  have "optimizationsEnabled s1 \<longrightarrow> list_all (\<lambda>f. folds_stmt s1 (fbody f)) fs"
    using Cons.prems c by (simp add: list_all_iff folds_stmt_cong [OF c(1)])
  then obtain s2 where "visit_CompilationUnit fs s1 = Inr s2"
    using Cons.IH by blast
  then show ?case using r1 by simp
qed

lemma generate_run_completes:
  assumes "optimizationsEnabled st \<longrightarrow> list_all (\<lambda>f. folds_stmt st (fbody f)) unit"
  shows "\<exists>st'. generate_run unit funcTable st = Inr st'"
proof -
  define s0 where "s0 = emits [Directive ''.data'', Directive ''.text'', Directive ''.global main'']
          (st\<lparr>output := [], functions := funcTable, stackOffset := 0, labelCounter := 0\<rparr>)"
  have c: "constantValues s0 = constantValues st" "optimizationsEnabled s0 = optimizationsEnabled st"
    by (simp_all add: s0_def emit_simps)
  have "optimizationsEnabled s0 \<longrightarrow> list_all (\<lambda>f. folds_stmt s0 (fbody f)) unit"
    using assms c by (simp add: list_all_iff folds_stmt_cong [OF c(1)])
  then show ?thesis
    unfolding generate_run_def s0_def [symmetric] by (rule visit_CompilationUnit_completes)
qed

text \<open>
  C7.  In the output of one \<^verbatim>\<open>generate\<close> run the label lines are the function entries
  and a list \<open>L\<close> of pairwise distinct names, one for each counter value from 0 up to the
  final counter: the names \<^verbatim>\<open>newLabel\<close> issued.  The run completes whenever
  optimizations are disabled, and with optimizations enabled whenever every binary
  expression of the unit emits code.  \<^verbatim>\<open>newLabel\<close> returns the prefix followed by the
  counter and raises the counter by one; with the four prefixes in use, names of
  different prefixes or counter values differ.  No lowering function lowers the counter
  (expression lowering leaves it alone), so it is zero only where \<^verbatim>\<open>generate\<close> sets
  it, at the start of the run.
\<close>

theorem label_names_distinct:
  "(\<forall>st'. generate_run unit funcTable st = Inr st' \<longrightarrow>
      (\<exists>L. mset (label_defs (output st')) = mset (map fname unit) + mset L
        \<and> distinct L
        \<and> set L \<subseteq> issued 0 (labelCounter st')
        \<and> int (length L) = labelCounter st'))
   \<and> ((optimizationsEnabled st \<longrightarrow> list_all (\<lambda>f. folds_stmt st (fbody f)) unit)
        \<longrightarrow> (\<exists>st'. generate_run unit funcTable st = Inr st'))
   \<and> fst (newLabel p s) = p @ to_string (labelCounter s)
   \<and> labelCounter (snd (newLabel p s)) = labelCounter s + 1
   \<and> (p \<in> label_prefixes \<and> q \<in> label_prefixes \<and> 0 \<le> j \<and> 0 \<le> k \<and> (p \<noteq> q \<or> j \<noteq> k)
        \<longrightarrow> p @ to_string j \<noteq> q @ to_string k)
   \<and> (\<forall>s'. visit_expr e s = Inr s' \<longrightarrow> labelCounter s' = labelCounter s)
   \<and> (\<forall>s'. visit_stmt x s = Inr s' \<longrightarrow> labelCounter s \<le> labelCounter s')
   \<and> (\<forall>s'. visit_FunctionDefinition f s = Inr s' \<longrightarrow> labelCounter s \<le> labelCounter s')
   \<and> (\<forall>s'. visit_CompilationUnit fs s = Inr s' \<longrightarrow> labelCounter s \<le> labelCounter s')"
proof (intro conjI allI impI)
  fix st' assume "generate_run unit funcTable st = Inr st'"
  then show "\<exists>L. mset (label_defs (output st')) = mset (map fname unit) + mset L
        \<and> distinct L
        \<and> set L \<subseteq> issued 0 (labelCounter st')
        \<and> int (length L) = labelCounter st'"
    by (rule generate_run_issues)
next
  assume "optimizationsEnabled st \<longrightarrow> list_all (\<lambda>f. folds_stmt st (fbody f)) unit"
  then show "\<exists>st'. generate_run unit funcTable st = Inr st'"
    by (rule generate_run_completes)
next
  assume "p \<in> label_prefixes \<and> q \<in> label_prefixes \<and> 0 \<le> j \<and> 0 \<le> k \<and> (p \<noteq> q \<or> j \<noteq> k)"
  then show "p @ to_string j \<noteq> q @ to_string k"
    using label_name_inj [of p q j k] by blast
next
  fix s' assume "visit_expr e s = Inr s'"
  then show "labelCounter s' = labelCounter s"
    by (rule visit_expr_labels)
next
  fix s' assume "visit_stmt x s = Inr s'"
  then show "labelCounter s \<le> labelCounter s'"
    by (rule keeps_counter [OF visit_stmt_keeps])
next
  fix s' assume "visit_FunctionDefinition f s = Inr s'"
  then show "labelCounter s \<le> labelCounter s'"
    by (rule keeps_counter [OF visit_FunctionDefinition_keeps])
next
  fix s' assume "visit_CompilationUnit fs s = Inr s'"
  then show "labelCounter s \<le> labelCounter s'"
    by (rule keeps_counter [OF visit_CompilationUnit_keeps])
qed (simp_all add: newLabel_def)

theorem label_names_distinct_witness:
  "(\<exists>st'. generate_run
      [FunctionDefinition ''main''
         (Block [WhileStatement (NumberLiteral 1)
                   (IfStatement (NumberLiteral 0) BreakStatement None)])]
      Map.empty (initial False Map.empty) = Inr st'
     \<and> label_defs (output st') = [''main'', ''loop0'', ''else2'', ''endif3'', ''endloop1''])
   \<and> ''else'' @ to_string 0 \<noteq> ''else'' @ to_string 1
   \<and> ''loop'' @ to_string 2 \<noteq> ''endloop'' @ to_string 2"
  using label_names_distinct [of
      "[FunctionDefinition ''main''
         (Block [WhileStatement (NumberLiteral 1)
                   (IfStatement (NumberLiteral 0) BreakStatement None)])]"
      Map.empty "initial False Map.empty" "''else''" "initial False Map.empty" "''else''" 0 1
      "NumberLiteral 0" BreakStatement "FunctionDefinition ''main'' (Block [])" "[]"]
    label_names_distinct [of "[]" Map.empty "initial False Map.empty" "''loop''"
      "initial False Map.empty" "''endloop''" 2 2
      "NumberLiteral 0" BreakStatement "FunctionDefinition ''main'' (Block [])" "[]"]
  by (simp add: generate_run_def initial_def emit_simps newLabel_def generatePrologue_def
      generateEpilogue_def to_string_eval label_prefixes_def)

end
